theory Spec2Isabelle
  imports Main "HOL-Library.Sublist"
begin

section \<open>Strings of the client\<close>

text \<open>
  A Python \<open>str\<close> is modelled as a \<^typ>\<open>string\<close>, a list of characters with the
  codes below 256.  The characters the stream processor of \<open>cyberlama.py\<close> inspects are
  all ASCII: the backtick of a fence, the line feed, the hash sign, the two quotes, and the
  escape character of a colour code.
\<close>

abbreviation BT :: char where "BT \<equiv> CHR 0x60"
abbreviation NL :: char where "NL \<equiv> CHR 0x0A"
abbreviation ESC :: char where "ESC \<equiv> CHR 0x1B"

definition FENCE :: string where
  "FENCE = [BT, BT, BT]"

text \<open>
  \<open>s.split(sep)\<close> for a non-empty separator: the pieces between the occurrences of
  \<open>sep\<close>, found from the left without overlap.  (Python raises on an empty separator;
  the program only splits on literals.)
\<close>

function py_split :: "string \<Rightarrow> string \<Rightarrow> string list" where
  "py_split sep [] = [[]]"
| "py_split sep (c # cs) =
     (if sep \<noteq> [] \<and> prefix sep (c # cs)
      then [] # py_split sep (drop (length sep) (c # cs))
      else (case py_split sep cs of [] \<Rightarrow> [[c]] | p # ps \<Rightarrow> (c # p) # ps))"
  by pat_completeness auto
termination
  by (relation "measure (\<lambda>(sep, s). length s)") auto

text \<open>
  \<open>s.split(sep, 1)\<close>: \<open>None\<close> when \<open>sep\<close> does not occur in \<open>s\<close> (Python returns
  the one-element list \<open>[s]\<close>), otherwise the text before and after the first occurrence.
\<close>

fun split_once :: "string \<Rightarrow> string \<Rightarrow> (string \<times> string) option" where
  "split_once sep [] = (if sep = [] then Some ([], []) else None)"
| "split_once sep (c # cs) =
     (if prefix sep (c # cs) then Some ([], drop (length sep) (c # cs))
      else (case split_once sep cs of None \<Rightarrow> None | Some (a, b) \<Rightarrow> Some (c # a, b)))"

lemma split_once_Some:
  "split_once sep s = Some (a, b) \<Longrightarrow> s = a @ sep @ b"
proof (induction s arbitrary: a)
  case Nil
  then show ?case by (simp split: if_splits)
next
  case (Cons c cs)
  show ?case
  proof (cases "prefix sep (c # cs)")
    case True
    with Cons.prems have ab: "a = []" "b = drop (length sep) (c # cs)"
      by simp_all
    from True obtain r where "c # cs = sep @ r"
      by (auto simp: prefix_def)
    with ab show ?thesis by simp
  next
    case False
    with Cons.prems obtain a' where "split_once sep cs = Some (a', b)" "a = c # a'"
      by (auto split: option.splits)
    with Cons.IH show ?thesis by simp
  qed
qed

lemma split_once_shorter:
  "sep \<noteq> [] \<Longrightarrow> split_once sep s = Some (a, b) \<Longrightarrow> length b < length s"
proof -
  assume "sep \<noteq> []" and "split_once sep s = Some (a, b)"
  then have "length s = length a + length sep + length b" and "0 < length sep"
    by (auto dest: split_once_Some)
  then show ?thesis by simp
qed

section \<open>The raw streaming mode: fence tracking and block capture\<close>

text \<open>
  The local variables of \<open>stream_completion\<close> that its raw path updates for each content
  delta (source lines 356-357 and 313-318), and the global \<open>CODE_BLOCKS\<close>.  What is
  printed to the terminal is not part of the state.
\<close>

record raw_state =
  full_content :: string
  in_code_block :: bool
  buffer :: string
  current_block_content :: "string list"
  code_blocks :: "string list"

definition raw_init :: raw_state where
  "raw_init = \<lparr>full_content = [], in_code_block = False, buffer = [],
     current_block_content = [], code_blocks = []\<rparr>"

text \<open>The loop \<open>while "\n" in buffer\<close> of lines 400-403.\<close>

function take_lines :: "raw_state \<Rightarrow> raw_state" where
  "take_lines s =
     (case split_once [NL] (buffer s) of
        None \<Rightarrow> s
      | Some (line_content, rest) \<Rightarrow>
          take_lines (s\<lparr>buffer := rest,
            current_block_content := current_block_content s @ [line_content @ [NL]]\<rparr>))"
  by pat_completeness auto
termination
  by (relation "measure (\<lambda>s. length (buffer s))") (auto dest: split_once_shorter [rotated])

declare take_lines.simps [simp del]

text \<open>The branch \<open>if i > 0\<close> of lines 376-394: a fence marker toggles the state.\<close>

definition toggle_marker :: "raw_state \<Rightarrow> raw_state" where
  "toggle_marker s =
     (if in_code_block s then
        (let s1 = (if buffer s \<noteq> []
                   then s\<lparr>current_block_content := current_block_content s @ [buffer s],
                          buffer := []\<rparr>
                   else s)
         in s1\<lparr>code_blocks := code_blocks s1 @ [concat (current_block_content s1)],
               current_block_content := [],
               in_code_block := False\<rparr>)
      else s\<lparr>in_code_block := True\<rparr>)"

text \<open>Lines 396-405: an empty part is skipped; text outside a block is only printed.\<close>

definition feed_part :: "raw_state \<Rightarrow> string \<Rightarrow> raw_state" where
  "feed_part s part =
     (if part = [] then s
      else if in_code_block s then take_lines (s\<lparr>buffer := buffer s @ part\<rparr>)
      else s)"

text \<open>The loop \<open>for i, part in enumerate(parts)\<close>, with \<open>i\<close> the index of the part.\<close>

fun feed_parts :: "nat \<Rightarrow> raw_state \<Rightarrow> string list \<Rightarrow> raw_state" where
  "feed_parts i s [] = s"
| "feed_parts i s (part # parts) =
     feed_parts (Suc i) (feed_part (if 0 < i then toggle_marker s else s) part) parts"

text \<open>Lines 370-405, for one content delta.\<close>

definition feed_delta :: "raw_state \<Rightarrow> string \<Rightarrow> raw_state" where
  "feed_delta s delta =
     (if delta = [] then s
      else feed_parts 0 (s\<lparr>full_content := full_content s @ delta\<rparr>) (py_split FENCE delta))"

text \<open>Lines 415-419, after the loop over the stream.\<close>

definition flush_end :: "raw_state \<Rightarrow> raw_state" where
  "flush_end s =
     (if buffer s \<noteq> [] \<and> in_code_block s
      then s\<lparr>current_block_content := current_block_content s @ [buffer s],
             code_blocks := code_blocks s @ [concat (current_block_content s @ [buffer s])]\<rparr>
      else s)"

definition raw_run :: "string list \<Rightarrow> raw_state" where
  "raw_run deltas = flush_end (foldl feed_delta raw_init deltas)"

section \<open>The rich rendering mode: blocks from the whole text\<close>

text \<open>
  One match of the regular expression \<open>```.*?\n(.*?)```\<close> (with \<open>re.DOTALL\<close>) at the start
  of \<open>s\<close>: the fence, lazily up to the first line feed, then lazily up to the first fence
  after it.  The result is group 1 and the text after the match.
\<close>

definition match_block :: "string \<Rightarrow> (string \<times> string) option" where
  "match_block s =
     (if prefix FENCE s then
        (case split_once [NL] (drop 3 s) of
           None \<Rightarrow> None
         | Some (info, body) \<Rightarrow> split_once FENCE body)
      else None)"

lemma match_block_shorter:
  "match_block s = Some (g, rest) \<Longrightarrow> length rest < length s"
  by (auto simp: match_block_def FENCE_def split: if_splits option.splits
      dest!: split_once_Some [THEN arg_cong [where f = length]])

text \<open>\<open>re.findall\<close>: the matches from the left, none overlapping another.\<close>

function findall_blocks :: "string \<Rightarrow> string list" where
  "findall_blocks [] = []"
| "findall_blocks (c # cs) =
     (case match_block (c # cs) of
        Some (g, rest) \<Rightarrow> g # findall_blocks rest
      | None \<Rightarrow> findall_blocks cs)"
  by pat_completeness auto
termination
  by (relation "measure length") (auto dest: match_block_shorter)

text \<open>Lines 335-337 and 349-350, for the content deltas of a stream.\<close>

definition rich_feed :: "string \<Rightarrow> string \<Rightarrow> string" where
  "rich_feed full delta = (if delta = [] then full else full @ delta)"

definition rich_run :: "string list \<Rightarrow> string \<times> string list" where
  "rich_run deltas =
     (let full = foldl rich_feed [] deltas in (full, findall_blocks full))"

section \<open>Decoded chunks\<close>

text \<open>
  The value \<open>json.loads\<close> returns for a payload.  Numbers are the integers of the token
  counts; a JSON object is the association list of its keys.
\<close>

datatype json =
    JNull
  | JBool bool
  | JNum int
  | JStr string
  | JArr "json list"
  | JObj "(string \<times> json) list"

datatype py_error = KeyError | IndexError | TypeError | AttributeError

text \<open>\<open>obj[k]\<close> for a string key: only a dict can be subscripted by a string.\<close>

fun subscript_key :: "json \<Rightarrow> string \<Rightarrow> py_error + json" where
  "subscript_key (JObj kv) k = (case map_of kv k of None \<Rightarrow> Inl KeyError | Some v \<Rightarrow> Inr v)"
| "subscript_key _ k = Inl TypeError"

text \<open>
  \<open>obj[0]\<close>: the first element of a list, the first character of a string; the keys of a
  decoded object are strings, so \<open>0\<close> is never one of them.
\<close>

fun subscript_0 :: "json \<Rightarrow> py_error + json" where
  "subscript_0 (JArr []) = Inl IndexError"
| "subscript_0 (JArr (x # xs)) = Inr x"
| "subscript_0 (JStr []) = Inl IndexError"
| "subscript_0 (JStr (c # cs)) = Inr (JStr [c])"
| "subscript_0 (JObj kv) = Inl KeyError"
| "subscript_0 _ = Inl TypeError"

text \<open>\<open>obj.get(k, default)\<close>: a method of dicts only.\<close>

fun py_get :: "json \<Rightarrow> string \<Rightarrow> json \<Rightarrow> py_error + json" where
  "py_get (JObj kv) k d = Inr (case map_of kv k of None \<Rightarrow> d | Some v \<Rightarrow> v)"
| "py_get _ k d = Inl AttributeError"

text \<open>The truth value of \<open>if delta\<close>.\<close>

fun truthy :: "json \<Rightarrow> bool" where
  "truthy JNull = False"
| "truthy (JBool b) = b"
| "truthy (JNum n) = (n \<noteq> 0)"
| "truthy (JStr s) = (s \<noteq> [])"
| "truthy (JArr xs) = (xs \<noteq> [])"
| "truthy (JObj kv) = (kv \<noteq> [])"

text \<open>\<open>chunk["choices"][0]\<close>.\<close>

definition first_choice :: "json \<Rightarrow> py_error + json" where
  "first_choice chunk =
     (case subscript_key chunk ''choices'' of
        Inl e \<Rightarrow> Inl e
      | Inr choices \<Rightarrow> subscript_0 choices)"

text \<open>\<open>chunk["choices"][0].get("delta", {}).get("content", "")\<close> (lines 334 and 368).\<close>

definition get_delta :: "json \<Rightarrow> py_error + json" where
  "get_delta chunk =
     (case first_choice chunk of
        Inl e \<Rightarrow> Inl e
      | Inr choice \<Rightarrow>
          (case py_get choice ''delta'' (JObj []) of
             Inl e \<Rightarrow> Inl e
           | Inr d \<Rightarrow> py_get d ''content'' (JStr [])))"

text \<open>\<open>chunk["choices"][0].get("finish_reason", "")\<close> (lines 342 and 411).\<close>

definition get_finish_reason :: "json \<Rightarrow> py_error + json" where
  "get_finish_reason chunk =
     (case first_choice chunk of
        Inl e \<Rightarrow> Inl e
      | Inr choice \<Rightarrow> py_get choice ''finish_reason'' (JStr []))"

section \<open>Program state\<close>

text \<open>
  The module-level variables of \<open>cyberlama.py\<close> (lines 61-74 and 19-21).  The two floats,
  \<open>TEMPERATURE\<close> and \<open>last_latency\<close>, are left out: one is a reading of the clock, and
  neither is touched by the code modelled here except that \<open>stream_completion\<close> stores
  the elapsed time.  A message is its role and its content.
\<close>

record globals =
  SEC_MODE :: string
  DEPTH :: string
  FORMAT :: string
  PHASE :: string
  ENGAGEMENT :: string
  MODEL :: string
  RENDER_MARKDOWN :: bool
  messages :: "(string \<times> string) list"
  MEMORY :: "string list"
  CODE_BLOCKS :: "string list"
  last_prompt_tokens :: json
  last_completion_tokens :: json
  last_finish_reason :: json

section \<open>The loop over the stream\<close>

text \<open>
  The outcome of the body of the loop for one line: the loop goes on with a new state,
  the line is the end marker, or an exception leaves the \<open>try\<close> of the line with the
  state it found.
\<close>

datatype 'a step = Next 'a | Raise py_error 'a

text \<open>
  Lines 339-341 and 407-409: the usage counters.  The chunk is a dict here, since
  \<open>chunk["choices"]\<close> has been read from it.
\<close>

definition update_usage :: "json \<Rightarrow> globals \<Rightarrow> py_error + globals" where
  "update_usage chunk g =
     (case chunk of
        JObj kv \<Rightarrow>
          (case map_of kv ''usage'' of
             None \<Rightarrow> Inr g
           | Some u \<Rightarrow>
               (case py_get u ''prompt_tokens'' (JNum 0) of
                  Inl e \<Rightarrow> Inl e
                | Inr pt \<Rightarrow>
                    (case py_get u ''completion_tokens'' (JNum 0) of
                       Inl e \<Rightarrow> Inl e
                     | Inr ct \<Rightarrow>
                         Inr (g\<lparr>last_prompt_tokens := pt, last_completion_tokens := ct\<rparr>))))
      | _ \<Rightarrow> Inl TypeError)"

text \<open>Lines 339-342 and 407-411: the counters, then the finish reason.\<close>

definition update_meta :: "json \<Rightarrow> globals \<Rightarrow> py_error + globals" where
  "update_meta chunk g =
     (case update_usage chunk g of
        Inl e \<Rightarrow> Inl e
      | Inr g1 \<Rightarrow>
          (case get_finish_reason chunk of
             Inl e \<Rightarrow> Inl e
           | Inr r \<Rightarrow> Inr (g1\<lparr>last_finish_reason := r\<rparr>)))"

text \<open>
  Rich mode, lines 333-342, for a decoded chunk; the state is \<open>full_content\<close> and the
  globals.  \<open>full_content += delta\<close> raises for a delta that is not a string.
\<close>

definition rich_chunk :: "json \<Rightarrow> string \<times> globals \<Rightarrow> (string \<times> globals) step" where
  "rich_chunk chunk st =
     (case st of (full, g) \<Rightarrow>
        (case get_delta chunk of
           Inl e \<Rightarrow> Raise e (full, g)
         | Inr delta \<Rightarrow>
             (case (if truthy delta
                    then (case delta of JStr d \<Rightarrow> Inr (full @ d) | _ \<Rightarrow> Inl TypeError)
                    else Inr full) of
                Inl e \<Rightarrow> Raise e (full, g)
              | Inr full1 \<Rightarrow>
                  (case update_usage chunk g of
                     Inl e \<Rightarrow> Raise e (full1, g)
                   | Inr g1 \<Rightarrow>
                       (case get_finish_reason chunk of
                          Inl e \<Rightarrow> Raise e (full1, g1)
                        | Inr r \<Rightarrow> Next (full1, g1\<lparr>last_finish_reason := r\<rparr>))))))"

text \<open>
  Raw mode, lines 367-411, for a decoded chunk.  A chunk with an empty delta is left by
  \<open>continue\<close> before its usage and finish reason are read.
\<close>

definition raw_chunk :: "json \<Rightarrow> raw_state \<times> globals \<Rightarrow> (raw_state \<times> globals) step" where
  "raw_chunk chunk st =
     (case st of (rs, g) \<Rightarrow>
        (case get_delta chunk of
           Inl e \<Rightarrow> Raise e (rs, g)
         | Inr delta \<Rightarrow>
             if \<not> truthy delta then Next (rs, g)
             else
               (case delta of
                  JStr d \<Rightarrow>
                    (let rs1 = feed_delta rs d in
                       (case update_usage chunk g of
                          Inl e \<Rightarrow> Raise e (rs1, g)
                        | Inr g1 \<Rightarrow>
                            (case get_finish_reason chunk of
                               Inl e \<Rightarrow> Raise e (rs1, g1)
                             | Inr r \<Rightarrow> Next (rs1, g1\<lparr>last_finish_reason := r\<rparr>))))
                | _ \<Rightarrow> Raise TypeError (rs, g))))"

text \<open>
  The loop \<open>for line in response.iter_lines()\<close> of both modes (lines 327-344 and
  361-413), over the decoded lines of the response; \<open>loads\<close> is \<open>json.loads\<close>, with
  \<open>None\<close> for a payload on which it raises \<open>JSONDecodeError\<close>, and \<open>on_chunk\<close> is the
  body of the \<open>try\<close> of the mode.
\<close>

fun stream_loop ::
  "(string \<Rightarrow> json option) \<Rightarrow> (json \<Rightarrow> 'a \<Rightarrow> 'a step) \<Rightarrow> string list \<Rightarrow> 'a \<Rightarrow> 'a step" where
  "stream_loop loads on_chunk [] st = Next st"
| "stream_loop loads on_chunk (line # rest) st =
     (if line = [] then stream_loop loads on_chunk rest st
      else if prefix ''data: '' line then
        (if line = ''data: [DONE]'' then Next st
         else
           (case loads (drop 6 line) of
              None \<Rightarrow> stream_loop loads on_chunk rest st
            | Some chunk \<Rightarrow>
                (case on_chunk chunk st of
                   Next st1 \<Rightarrow> stream_loop loads on_chunk rest st1
                 | Raise e st1 \<Rightarrow> Raise e st1)))
      else stream_loop loads on_chunk rest st)"

section \<open>\<open>stream_completion\<close>\<close>

text \<open>The three handlers of lines 303-311 for a request that fails.\<close>

datatype request_error = Timeout | ConnectionError | RequestException

text \<open>
  What a call does: it returns the text and the finish reason, or (in rich mode, which has
  no handler around its loop) an exception leaves it.
\<close>

datatype outcome = Returned string json | Propagated py_error

text \<open>
  \<open>stream_completion\<close>, lines 284-427.  \<open>rich_available\<close> is the constant
  \<open>RICH_AVAILABLE\<close>; \<open>response\<close> is the error of the request or the lines of the
  response.
\<close>

definition stream_completion ::
  "bool \<Rightarrow> (string \<Rightarrow> json option) \<Rightarrow> request_error + string list \<Rightarrow> globals
    \<Rightarrow> outcome \<times> globals" where
  "stream_completion rich_available loads response g =
     (case response of
        Inl err \<Rightarrow> (Returned [] (JStr ''error''), g)
      | Inr lines \<Rightarrow>
          (let g0 = g\<lparr>CODE_BLOCKS := []\<rparr> in
           if rich_available \<and> RENDER_MARKDOWN g0 then
             (case stream_loop loads rich_chunk lines ([], g0) of
                Next (full, g1) \<Rightarrow>
                  (Returned full (last_finish_reason g1),
                   g1\<lparr>CODE_BLOCKS := findall_blocks full\<rparr>)
              | Raise e (full, g1) \<Rightarrow> (Propagated e, g1))
           else
             (case stream_loop loads raw_chunk lines (raw_init, g0) of
                Next (rs, g1) \<Rightarrow>
                  (let rs1 = flush_end rs in
                     (Returned (full_content rs1) (last_finish_reason g1),
                      g1\<lparr>CODE_BLOCKS := code_blocks rs1\<rparr>))
              | Raise e (rs, g1) \<Rightarrow>
                  (Returned (full_content rs) (JStr ''error''),
                   g1\<lparr>CODE_BLOCKS := code_blocks rs\<rparr>))))"

section \<open>The commands \<open>:diff\<close> and \<open>:copy\<close>\<close>

text \<open>
  What \<open>handle_command\<close> asks of its surroundings: whether a path exists, the text of a
  file (\<open>None\<close> when reading raises), \<open>sys.platform\<close>, whether the \<open>pbcopy\<close> process
  ends well for an input, and \<open>int\<close> on a string (\<open>None\<close> when it raises \<open>ValueError\<close>).
\<close>

record env =
  path_exists :: "string \<Rightarrow> bool"
  read_text :: "string \<Rightarrow> string option"
  platform :: string
  pbcopy :: "string \<Rightarrow> bool"
  py_int :: "string \<Rightarrow> int option"

text \<open>
  The messages of the two commands.  \<open>DiffShown f old new n\<close> is the unified diff of the
  text \<open>old\<close> of file \<open>f\<close> against the block \<open>new\<close>, labelled \<open>Block_n\<close>;
  \<open>Copied n text\<close> is \<open>text\<close> on the clipboard and the note that block \<open>n\<close> was copied.
\<close>

datatype report =
    FileNotFound string
  | NoBlocksToDiff
  | DiffShown string string string int
  | DiffError
  | BlockNotFound int
  | NoBlocksFound
  | Copied int string
  | MacOnly
  | BlockNotAvailable string nat
  | CopyUsage
  | UnknownCommand string

datatype cmd_error = CmdIndexError | CmdValueError | CalledProcessError

datatype cmd_result = Printed report | CommandError cmd_error

text \<open>Lines 440-474, once \<open>block_idx\<close> is known.\<close>

definition diff_block :: "env \<Rightarrow> globals \<Rightarrow> string \<Rightarrow> int \<Rightarrow> cmd_result" where
  "diff_block e g fpath block_idx =
     (if \<not> path_exists e fpath then Printed (FileNotFound fpath)
      else if CODE_BLOCKS g = [] then Printed NoBlocksToDiff
      else if 0 \<le> block_idx \<and> block_idx < int (length (CODE_BLOCKS g)) then
        (case read_text e fpath of
           None \<Rightarrow> Printed DiffError
         | Some old \<Rightarrow>
             Printed (DiffShown fpath old (CODE_BLOCKS g ! nat block_idx) (block_idx + 1)))
      else Printed (BlockNotFound (block_idx + 1)))"

text \<open>Lines 435-474: \<open>int(args[1])\<close> stands outside every \<open>try\<close>.\<close>

definition cmd_diff :: "env \<Rightarrow> globals \<Rightarrow> string list \<Rightarrow> cmd_result" where
  "cmd_diff e g args =
     (if 1 < length args then
        (case py_int e (args ! 1) of
           None \<Rightarrow> CommandError CmdValueError
         | Some n \<Rightarrow> diff_block e g (hd args) (n - 1))
      else diff_block e g (hd args) (int (length (CODE_BLOCKS g)) - 1))"

text \<open>Lines 521-540: only \<open>ValueError\<close> is caught.\<close>

definition cmd_copy :: "env \<Rightarrow> globals \<Rightarrow> string list \<Rightarrow> cmd_result" where
  "cmd_copy e g args =
     (if CODE_BLOCKS g = [] then Printed NoBlocksFound
      else
        (case (if args \<noteq> [] then map_option (\<lambda>n. n - 1) (py_int e (hd args))
               else Some (int (length (CODE_BLOCKS g)) - 1)) of
           None \<Rightarrow> Printed CopyUsage
         | Some idx \<Rightarrow>
             if 0 \<le> idx \<and> idx < int (length (CODE_BLOCKS g)) then
               (let content = CODE_BLOCKS g ! nat idx in
                  if platform e = ''darwin'' then
                    (if pbcopy e content then Printed (Copied (idx + 1) content)
                     else CommandError CalledProcessError)
                  else Printed MacOnly)
             else Printed (BlockNotAvailable (hd args) (length (CODE_BLOCKS g)))))"

text \<open>
  \<open>handle_command\<close> on the words \<open>p\<close> of the prompt after its colon, for the commands
  \<open>diff\<close> and \<open>copy\<close>; the result is \<open>None\<close> for every other command, which this model
  does not cover.  A \<open>diff\<close> without arguments reaches the last line of the function.
\<close>

definition handle_command ::
  "env \<Rightarrow> globals \<Rightarrow> string list \<Rightarrow> (cmd_result \<times> globals) option" where
  "handle_command e g p =
     (case p of
        [] \<Rightarrow> Some (CommandError CmdIndexError, g)
      | cmd # args \<Rightarrow>
          if cmd = ''diff'' \<and> args \<noteq> [] then Some (cmd_diff e g args, g)
          else if cmd = ''copy'' then Some (cmd_copy e g args, g)
          else if cmd = ''diff'' then Some (Printed (UnknownCommand cmd), g)
          else None)"

section \<open>The syntax highlighter\<close>

definition RESET :: string where "RESET = ESC # ''[0m''"
definition RED :: string where "RED = ESC # ''[31m''"
definition YELLOW :: string where "YELLOW = ESC # ''[33m''"
definition BLUE :: string where "BLUE = ESC # ''[34m''"
definition CYAN :: string where "CYAN = ESC # ''[36m''"
definition GRAY :: string where "GRAY = ESC # ''[90m''"

definition KEYWORDS :: "string list" where
  "KEYWORDS =
     [''def'', ''class'', ''import'', ''from'', ''return'', ''if'', ''elif'', ''else'',
      ''while'', ''for'', ''in'', ''try'', ''except'', ''raise'', ''print'', ''with'', ''as'',
      ''pass'', ''break'', ''continue'', ''True'', ''False'', ''None'', ''async'', ''await'',
      ''lambda'', ''global'', ''nonlocal'', ''assert'', ''del'']"

text \<open>
  The classes \<open>\d\<close> and \<open>\w\<close> of \<open>re\<close>.  On ASCII they are the digits, and the letters,
  digits and underscore; whether a character beyond ASCII is a word character is a matter
  of the Unicode tables, the parameter \<open>U\<close>.
\<close>

definition is_digit :: "char \<Rightarrow> bool" where
  "is_digit c = (c \<in> set ''0123456789'')"

definition is_word :: "(char \<Rightarrow> bool) \<Rightarrow> char \<Rightarrow> bool" where
  "is_word U c =
     (c \<in> set ''abcdefghijklmnopqrstuvwxyzABCDEFGHIJKLMNOPQRSTUVWXYZ0123456789_''
      \<or> (128 \<le> (of_char c :: nat) \<and> U c))"

text \<open>
  \<open>re.sub(r'(q.*?q)', YELLOW + group + RESET, text)\<close> for a quote character \<open>q\<close>: from an
  opening quote the lazy \<open>.*?\<close> runs to the next quote, and fails when a line feed comes
  first; the search goes on after a match, and at the next character when there is none.
\<close>

function sub_quote :: "char \<Rightarrow> string \<Rightarrow> string" where
  "sub_quote q [] = []"
| "sub_quote q (c # cs) =
     (case (if c = q then split_once [q] cs else None) of
        Some (body, rest) \<Rightarrow>
          if NL \<in> set body then c # sub_quote q cs
          else YELLOW @ (q # body @ [q]) @ RESET @ sub_quote q rest
      | None \<Rightarrow> c # sub_quote q cs)"
  by pat_completeness auto
termination
  by (relation "measure (\<lambda>(q, s). length s)")
    (auto split: if_splits dest!: split_once_Some [THEN arg_cong [where f = length]])

text \<open>
  The keyword of \<open>KW_PATTERN\<close> that matches at the start of \<open>t\<close>, when a word boundary
  stands before \<open>t\<close>: the first alternative that is a prefix of \<open>t\<close> and ends at a word
  boundary.
\<close>

definition kw_match :: "(char \<Rightarrow> bool) \<Rightarrow> string \<Rightarrow> string option" where
  "kw_match U t =
     find (\<lambda>k. prefix k t \<and> (case drop (length k) t of [] \<Rightarrow> True | d # _ \<Rightarrow> \<not> is_word U d))
       KEYWORDS"

lemma keyword_not_empty: "[] \<notin> set KEYWORDS"
  by (simp add: KEYWORDS_def)

lemma kw_match_Some:
  assumes "kw_match U t = Some k"
  shows "k \<noteq> [] \<and> prefix k t \<and> k \<in> set KEYWORDS"
proof -
  from assms obtain i where i: "i < length KEYWORDS" "k = KEYWORDS ! i" "prefix k t"
    unfolding kw_match_def find_Some_iff by blast
  then have "k \<in> set KEYWORDS"
    by simp
  with keyword_not_empty i show ?thesis
    by metis
qed

text \<open>
  \<open>re.sub(KW_PATTERN, BLUE + group + RESET, text)\<close>; \<open>w\<close> tells whether the character
  before the text is a word character (\<open>False\<close> at the start of the string).
\<close>

function sub_kw :: "(char \<Rightarrow> bool) \<Rightarrow> bool \<Rightarrow> string \<Rightarrow> string" where
  "sub_kw U w [] = []"
| "sub_kw U w (c # cs) =
     (case (if w then None else kw_match U (c # cs)) of
        Some k \<Rightarrow> BLUE @ k @ RESET @ sub_kw U True (drop (length k) (c # cs))
      | None \<Rightarrow> c # sub_kw U (is_word U c) cs)"
  by pat_completeness auto
termination
proof (relation "measure (\<lambda>(U, w, s). length s)")
  fix U :: "char \<Rightarrow> bool" and w :: bool and c :: char and cs x2
  assume "(if w then None else kw_match U (c # cs)) = Some x2"
  then have "kw_match U (c # cs) = Some x2"
    by (simp split: if_splits)
  then have "x2 \<noteq> []"
    by (simp add: kw_match_Some)
  then show "((U, True, drop (length x2) (c # cs)), U, w, c # cs)
      \<in> measure (\<lambda>(U, w, s). length s)"
    by simp
qed simp_all

text \<open>
  \<open>re.sub(r'\b(\d+)\b', CYAN + group + RESET, text)\<close>: a run of digits after a word
  boundary matches when it is followed by one; within a run no boundary stands before a
  digit.
\<close>

function sub_num :: "(char \<Rightarrow> bool) \<Rightarrow> bool \<Rightarrow> string \<Rightarrow> string" where
  "sub_num U w [] = []"
| "sub_num U w (c # cs) =
     (if \<not> w \<and> is_digit c
         \<and> (case dropWhile is_digit cs of [] \<Rightarrow> True | d # _ \<Rightarrow> \<not> is_word U d)
      then CYAN @ (c # takeWhile is_digit cs) @ RESET @ sub_num U True (dropWhile is_digit cs)
      else c # sub_num U (is_word U c) cs)"
  by pat_completeness auto
termination
  by (relation "measure (\<lambda>(U, w, s). length s)")
    (auto simp: less_Suc_eq_le length_dropWhile_le)

text \<open>\<open>highlight_code_text\<close>, lines 266-281.\<close>

definition highlight_code_text :: "(char \<Rightarrow> bool) \<Rightarrow> string \<Rightarrow> string" where
  "highlight_code_text U text =
     sub_num U False (sub_kw U False (sub_quote (CHR 0x27) (sub_quote (CHR 0x22) text)))"

text \<open>\<open>highlight_code_line\<close>, lines 255-264.\<close>

definition highlight_code_line :: "(char \<Rightarrow> bool) \<Rightarrow> string \<Rightarrow> string" where
  "highlight_code_line U line =
     (case split_once ''#'' line of
        Some (code, comment) \<Rightarrow> highlight_code_text U code @ GRAY @ ''#'' @ comment @ RESET
      | None \<Rightarrow> highlight_code_text U line)"

text \<open>
  The reading of the specification's "deleting every ANSI color-escape sequence": every
  sequence of the escape character, an opening bracket, digits and semicolons, and the
  letter \<open>m\<close> is taken out, from the left.  This function is not part of the program; it
  is the yardstick for what the highlighter adds.
\<close>

definition is_param :: "char \<Rightarrow> bool" where
  "is_param c = (c \<in> set ''0123456789;'')"

function strip_ansi :: "string \<Rightarrow> string" where
  "strip_ansi [] = []"
| "strip_ansi (c # cs) =
     (if c = ESC \<and> cs \<noteq> [] \<and> hd cs = CHR ''[''
         \<and> dropWhile is_param (tl cs) \<noteq> [] \<and> hd (dropWhile is_param (tl cs)) = CHR ''m''
      then strip_ansi (tl (dropWhile is_param (tl cs)))
      else c # strip_ansi cs)"
  by pat_completeness auto
termination
proof (relation "measure length")
  fix c :: char and cs :: string
  have "length (dropWhile is_param (tl cs)) \<le> length cs"
    by (metis length_dropWhile_le length_tl diff_le_self le_trans)
  then show "(tl (dropWhile is_param (tl cs)), c # cs) \<in> measure length"
    by simp
qed simp_all

section \<open>The scenario of the specification\<close>

text \<open>
  Claim C3.  The deltas \<open>"Here is "\<close>, \<open>"code:\n```py"\<close>, \<open>"\nx = 1\n"\<close>, \<open>"```\ndone"\<close>
  give the accumulated text \<open>"Here is code:\n```py\nx = 1\n```\ndone"\<close> in both modes.
  The rich mode captures the one block \<open>"x = 1\n"\<close> that the claim names; the raw mode
  captures \<open>"py\nx = 1\n"\<close>, the block together with the language line of its fence.
\<close>

theorem scenario_raw_keeps_language_line:
  "full_content (raw_run [''Here is '', ''code:\<newline>```py'', ''\<newline>x = 1\<newline>'', ''```\<newline>done''])
     = ''Here is code:\<newline>```py\<newline>x = 1\<newline>```\<newline>done''
   \<and> code_blocks (raw_run [''Here is '', ''code:\<newline>```py'', ''\<newline>x = 1\<newline>'', ''```\<newline>done''])
     = [''py\<newline>x = 1\<newline>'']
   \<and> rich_run [''Here is '', ''code:\<newline>```py'', ''\<newline>x = 1\<newline>'', ''```\<newline>done'']
     = (''Here is code:\<newline>```py\<newline>x = 1\<newline>```\<newline>done'', [''x = 1\<newline>''])"
  by code_simp

section \<open>A stream that ends inside a block\<close>

text \<open>
  Claim C4.  When the stream ends inside a fence, the raw mode commits the open block
  only if its last line is unfinished: for the single delta \<open>"```py\nx = 1\n"\<close> the two
  finished lines are held in \<open>current_block_content\<close> and the final flush, which asks for
  a non-empty \<open>buffer\<close>, leaves \<open>CODE_BLOCKS\<close> empty.  The rich mode finds no block in
  \<open>"```py\nx = 1"\<close>, since its expression asks for the closing fence, where the raw mode
  commits \<open>"py\nx = 1"\<close>.
\<close>

theorem unterminated_block_dropped:
  "code_blocks (raw_run [''```py\<newline>x = 1\<newline>'']) = []
   \<and> current_block_content (raw_run [''```py\<newline>x = 1\<newline>'']) = [''py\<newline>'', ''x = 1\<newline>'']
   \<and> snd (rich_run [''```py\<newline>x = 1'']) = []
   \<and> code_blocks (raw_run [''```py\<newline>x = 1'']) = [''py\<newline>x = 1'']"
  by code_simp

section \<open>Surroundings for the examples\<close>

text \<open>The module-level state as the program sets it at its start (lines 19-21 and 61-74).\<close>

definition start_globals :: globals where
  "start_globals =
     \<lparr>SEC_MODE = ''lab'', DEPTH = ''normal'', FORMAT = ''raw'', PHASE = ''recon'',
      ENGAGEMENT = ''default'', MODEL = ''Llama-3.1-70B-Instruct-Q4_K_M.gguf'',
      RENDER_MARKDOWN = True, messages = [], MEMORY = [], CODE_BLOCKS = [],
      last_prompt_tokens = JNum 0, last_completion_tokens = JNum 0,
      last_finish_reason = JStr []\<rparr>"

text \<open>
  \<open>json.loads\<close> on the payloads of the examples: four JSON texts with their values; every
  other payload of the examples, such as \<open>oops\<close>, is not JSON.
\<close>

definition demo_loads :: "string \<Rightarrow> json option" where
  \<open>demo_loads =
     map_of
      [(''{"choices":[{"delta":{"content":"```a```"},"finish_reason":null}]}'',
        JObj [(''choices'', JArr [JObj [(''delta'', JObj [(''content'', JStr ''```a```'')]),
                                         (''finish_reason'', JNull)]])]),
       (''{"choices":[{"delta":{},"finish_reason":"stop"}]}'',
        JObj [(''choices'', JArr [JObj [(''delta'', JObj []),
                                         (''finish_reason'', JStr ''stop'')]])]),
       (''{"choices":[{"delta":{"content":"hi"}}]}'',
        JObj [(''choices'', JArr [JObj [(''delta'', JObj [(''content'', JStr ''hi'')])]])]),
       (''{}'', JObj [])]\<close>

text \<open>
  A machine with one file, \<open>exploit.py\<close>, a working clipboard, and \<open>int\<close> on the numerals
  the examples use.
\<close>

definition demo_env :: env where
  "demo_env =
     \<lparr>path_exists = (\<lambda>f. f = ''exploit.py''),
      read_text = (\<lambda>f. if f = ''exploit.py'' then Some ''x = 2\<newline>'' else None),
      platform = ''darwin'',
      pbcopy = (\<lambda>text. True),
      py_int = map_of [(''0'', 0), (''1'', 1), (''2'', 2), (''3'', 3)]\<rparr>"

section \<open>Streams of content deltas\<close>

text \<open>
  The chunk \<open>{"choices": [{"delta": {"content": d}}]}\<close> that carries the content delta
  \<open>d\<close> and nothing else, and a line of the stream that carries such a chunk.
\<close>

definition content_chunk :: "string \<Rightarrow> json" where
  "content_chunk d =
     JObj [(''choices'', JArr [JObj [(''delta'', JObj [(''content'', JStr d)])]])]"

definition content_line :: "(string \<Rightarrow> json option) \<Rightarrow> string \<Rightarrow> string \<Rightarrow> bool" where
  "content_line loads line d =
     (prefix ''data: '' line \<and> line \<noteq> ''data: [DONE]''
      \<and> loads (drop 6 line) = Some (content_chunk d))"

lemma raw_chunk_content:
  "raw_chunk (content_chunk d) (rs, g)
     = Next (feed_delta rs d, if d = [] then g else g\<lparr>last_finish_reason := JStr []\<rparr>)"
  by (simp add: raw_chunk_def content_chunk_def get_delta_def first_choice_def
      update_usage_def get_finish_reason_def feed_delta_def)

lemma rich_chunk_content:
  "rich_chunk (content_chunk d) (full, g)
     = Next (rich_feed full d, g\<lparr>last_finish_reason := JStr []\<rparr>)"
  by (simp add: rich_chunk_def content_chunk_def get_delta_def first_choice_def
      update_usage_def get_finish_reason_def rich_feed_def)

lemma stream_loop_content_step:
  assumes "content_line loads line d"
  shows "stream_loop loads f (line # rest) st
         = (case f (content_chunk d) st of
              Next st1 \<Rightarrow> stream_loop loads f rest st1
            | Raise e st1 \<Rightarrow> Raise e st1)"
proof -
  from assms have "line \<noteq> []" "prefix ''data: '' line" "line \<noteq> ''data: [DONE]''"
    "loads (drop 6 line) = Some (content_chunk d)"
    by (auto simp: content_line_def)
  then show ?thesis by simp
qed

lemma raw_loop_content:
  "list_all2 (content_line loads) lines ds \<Longrightarrow>
   stream_loop loads raw_chunk lines (rs, g)
     = Next (foldl feed_delta rs ds,
             if \<exists>d\<in>set ds. d \<noteq> [] then g\<lparr>last_finish_reason := JStr []\<rparr> else g)"
proof (induction arbitrary: rs g rule: list_all2_induct)
  case Nil
  show ?case by simp
next
  case (Cons line lines d ds)
  show ?case
    unfolding stream_loop_content_step [OF Cons.hyps(1)] raw_chunk_content
    by (simp add: Cons.IH del: stream_loop.simps)
qed

lemma rich_loop_content:
  "list_all2 (content_line loads) lines ds \<Longrightarrow>
   stream_loop loads rich_chunk lines (full, g)
     = Next (foldl rich_feed full ds,
             if ds = [] then g else g\<lparr>last_finish_reason := JStr []\<rparr>)"
proof (induction arbitrary: full g rule: list_all2_induct)
  case Nil
  show ?case by simp
next
  case (Cons line lines d ds)
  show ?case
    unfolding stream_loop_content_step [OF Cons.hyps(1)] rich_chunk_content
    by (simp add: Cons.IH del: stream_loop.simps)
qed

text \<open>
  On a stream of such lines \<open>stream_completion\<close> returns the text, and leaves the blocks,
  that \<open>rich_run\<close> and \<open>raw_run\<close> give for the deltas: the claims about sequences of
  deltas are claims about \<open>stream_completion\<close>.  The finish reason is the default \<open>""\<close>
  of the chunks; the raw mode sets it only when a delta is not empty.
\<close>

theorem stream_of_content_deltas:
  assumes "list_all2 (content_line loads) lines ds"
  shows "stream_completion True loads (Inr lines) (g\<lparr>RENDER_MARKDOWN := True\<rparr>)
           = (Returned (fst (rich_run ds)) (if ds = [] then last_finish_reason g else JStr []),
              g\<lparr>RENDER_MARKDOWN := True, CODE_BLOCKS := snd (rich_run ds),
                last_finish_reason := (if ds = [] then last_finish_reason g else JStr [])\<rparr>)
       \<and> stream_completion False loads (Inr lines) g
           = (Returned (full_content (raw_run ds))
                (if \<exists>d\<in>set ds. d \<noteq> [] then JStr [] else last_finish_reason g),
              g\<lparr>CODE_BLOCKS := code_blocks (raw_run ds),
                last_finish_reason :=
                  (if \<exists>d\<in>set ds. d \<noteq> [] then JStr [] else last_finish_reason g)\<rparr>)"
  using assms
  by (simp add: stream_completion_def raw_loop_content rich_loop_content rich_run_def raw_run_def
      Let_def)

theorem stream_of_content_deltas_witness:
  \<open>list_all2 (content_line demo_loads) [''data: {"choices":[{"delta":{"content":"hi"}}]}''] [''hi'']
   \<and> stream_completion False demo_loads
        (Inr [''data: {"choices":[{"delta":{"content":"hi"}}]}'']) start_globals
      = (Returned (full_content (raw_run [''hi''])) (JStr []),
         start_globals\<lparr>CODE_BLOCKS := code_blocks (raw_run [''hi'']),
           last_finish_reason := JStr []\<rparr>)\<close>
proof -
  have 1: \<open>list_all2 (content_line demo_loads)
      [''data: {"choices":[{"delta":{"content":"hi"}}]}''] [''hi'']\<close>
    by (simp add: content_line_def demo_loads_def content_chunk_def)
  from stream_of_content_deltas [OF 1, of start_globals] 1 show ?thesis
    by simp
qed

section \<open>The two modes side by side\<close>

text \<open>
  Claim C2.  The two modes do not end in the same state.  For a stream of one chunk with
  the content \<open>```a```\<close> and a last chunk with an empty delta and the finish reason
  \<open>stop\<close>, the rich mode captures no block (its expression asks for a line feed after the
  opening fence) and records the finish reason \<open>stop\<close>; the raw mode captures the block
  \<open>a\<close> and, leaving the last chunk by \<open>continue\<close> before its finish reason is read,
  keeps the \<open>null\<close> of the first chunk.  The accumulated text is the same.
\<close>

theorem modes_end_in_different_states:
  \<open>stream_completion True demo_loads
      (Inr [''data: {"choices":[{"delta":{"content":"```a```"},"finish_reason":null}]}'',
            ''data: {"choices":[{"delta":{},"finish_reason":"stop"}]}'',
            ''data: [DONE]'']) start_globals
    = (Returned ''```a```'' (JStr ''stop''),
       start_globals\<lparr>CODE_BLOCKS := [], last_finish_reason := JStr ''stop''\<rparr>)
  \<and> stream_completion False demo_loads
      (Inr [''data: {"choices":[{"delta":{"content":"```a```"},"finish_reason":null}]}'',
            ''data: {"choices":[{"delta":{},"finish_reason":"stop"}]}'',
            ''data: [DONE]'']) start_globals
    = (Returned ''```a```'' JNull,
       start_globals\<lparr>CODE_BLOCKS := [''a''], last_finish_reason := JNull\<rparr>)\<close>
  by code_simp

section \<open>Malformed lines\<close>

lemma stream_loop_skip:
  assumes "prefix ''data: '' line" and "line \<noteq> ''data: [DONE]''"
    and "loads (drop 6 line) = None"
  shows "stream_loop loads f (pre @ line # post) st = stream_loop loads f (pre @ post) st"
proof (induction pre arbitrary: st)
  case Nil
  from assms have "line \<noteq> []" by auto
  with assms show ?case by simp
next
  case (Cons l pre)
  then show ?case by (simp split: option.splits step.splits)
qed

text \<open>
  Claim C7, as the code has it.  A line whose payload \<open>json.loads\<close> rejects is skipped in
  both modes: the call ends as it would without the line.
\<close>

theorem undecodable_line_skipped:
  assumes "prefix ''data: '' line" and "line \<noteq> ''data: [DONE]''"
    and "loads (drop 6 line) = None"
  shows "stream_completion ra loads (Inr (pre @ line # post)) g
         = stream_completion ra loads (Inr (pre @ post)) g"
proof -
  have rich: "stream_loop loads rich_chunk (pre @ line # post) st
          = stream_loop loads rich_chunk (pre @ post) st" for st
    using assms by (rule stream_loop_skip)
  have raw: "stream_loop loads raw_chunk (pre @ line # post) st
          = stream_loop loads raw_chunk (pre @ post) st" for st
    using assms by (rule stream_loop_skip)
  show ?thesis
    by (simp add: stream_completion_def rich raw cong: if_cong)
qed

theorem undecodable_line_skipped_witness:
  \<open>prefix ''data: '' ''data: oops'' \<and> ''data: oops'' \<noteq> ''data: [DONE]''
   \<and> demo_loads (drop 6 ''data: oops'') = None
   \<and> stream_completion False demo_loads
        (Inr [''data: oops'', ''data: {"choices":[{"delta":{"content":"hi"}}]}'']) start_globals
      = (Returned ''hi'' (JStr []), start_globals)\<close>
proof -
  have 1: "prefix ''data: '' ''data: oops''" and 2: "''data: oops'' \<noteq> ''data: [DONE]''"
    by simp_all
  have 3: "demo_loads (drop 6 ''data: oops'') = None"
    by code_simp
  have \<open>stream_completion False demo_loads
          (Inr [''data: {"choices":[{"delta":{"content":"hi"}}]}'']) start_globals
        = (Returned ''hi'' (JStr []), start_globals)\<close>
    by code_simp
  with undecodable_line_skipped [where line = "''data: oops''" and loads = demo_loads
      and ra = False and pre = "[]" and g = start_globals, OF 1 2 3] 1 2 3
  show ?thesis by simp
qed

text \<open>
  The claim as stated fails for a payload that is JSON but has no \<open>choices\<close>: the object
  \<open>{}\<close> raises \<open>KeyError\<close>, which only the handler around the raw loop catches.  The raw
  mode ends the stream with the reason \<open>error\<close> and never reads the chunk \<open>hi\<close> behind
  it; the rich mode lets the exception leave \<open>stream_completion\<close>.
\<close>

theorem shapeless_chunk_aborts:
  \<open>stream_completion False demo_loads
      (Inr [''data: {}'', ''data: {"choices":[{"delta":{"content":"hi"}}]}'']) start_globals
    = (Returned [] (JStr ''error''), start_globals)
  \<and> stream_completion True demo_loads
      (Inr [''data: {}'', ''data: {"choices":[{"delta":{"content":"hi"}}]}'']) start_globals
    = (Propagated KeyError, start_globals)\<close>
  by code_simp

section \<open>Clearing \<open>CODE_BLOCKS\<close>\<close>

text \<open>
  Claim C8, as the code has it.  Once the request has succeeded, \<open>CODE_BLOCKS\<close> is cleared
  before the first line is read: the outcome and the final state of the call do not depend
  on the blocks it finds.  When the request fails, the call returns the empty text and the
  reason \<open>error\<close> from one of the handlers of lines 303-311, before the assignment of line
  317, and the state is as it was.
\<close>

theorem blocks_cleared_once_connected:
  "stream_completion ra loads (Inr lines) (g\<lparr>CODE_BLOCKS := bs\<rparr>)
     = stream_completion ra loads (Inr lines) g
   \<and> stream_completion ra loads (Inl err) g = (Returned [] (JStr ''error''), g)"
  by (simp add: stream_completion_def)

text \<open>A request that times out leaves the block of the response before it in place.\<close>

theorem failed_request_keeps_blocks:
  "CODE_BLOCKS (snd (stream_completion False demo_loads (Inl Timeout)
      (start_globals\<lparr>CODE_BLOCKS := [''old'']\<rparr>))) = [''old'']"
  by (simp add: stream_completion_def)

section \<open>Block numbers of \<open>:copy\<close> and \<open>:diff\<close>\<close>

text \<open>
  Claim C9, as the code has it.  For a block number \<open>0\<close> or one beyond the length of
  \<open>CODE_BLOCKS\<close>, \<open>:copy\<close> reports that the block is not there (or, with no block at
  all, that there are none); \<open>:diff\<close> does the same once it has found its file, and
  reports the missing file otherwise.  The state is unchanged in every case.
\<close>

theorem out_of_range_refused:
  assumes "py_int e s = Some n" and "n = 0 \<or> int (length (CODE_BLOCKS g)) < n"
  shows "handle_command e g (''copy'' # s # extra)
           = Some (Printed (if CODE_BLOCKS g = [] then NoBlocksFound
                            else BlockNotAvailable s (length (CODE_BLOCKS g))), g)
       \<and> handle_command e g (''diff'' # f # s # extra)
           = Some (Printed (if \<not> path_exists e f then FileNotFound f
                            else if CODE_BLOCKS g = [] then NoBlocksToDiff
                            else BlockNotFound n), g)"
  using assms by (auto simp: handle_command_def cmd_copy_def cmd_diff_def diff_block_def)

theorem out_of_range_refused_witness:
  "py_int demo_env ''3'' = Some 3
   \<and> int (length (CODE_BLOCKS (start_globals\<lparr>CODE_BLOCKS := [''a'', ''b'']\<rparr>))) < 3
   \<and> handle_command demo_env (start_globals\<lparr>CODE_BLOCKS := [''a'', ''b'']\<rparr>) [''copy'', ''3'']
       = Some (Printed (BlockNotAvailable ''3'' 2), start_globals\<lparr>CODE_BLOCKS := [''a'', ''b'']\<rparr>)
   \<and> handle_command demo_env (start_globals\<lparr>CODE_BLOCKS := [''a'', ''b'']\<rparr>)
         [''diff'', ''exploit.py'', ''3'']
       = Some (Printed (BlockNotFound 3), start_globals\<lparr>CODE_BLOCKS := [''a'', ''b'']\<rparr>)"
proof -
  have 1: "py_int demo_env ''3'' = Some 3"
    by (simp add: demo_env_def)
  have 2: "(3::int) = 0 \<or> int (length (CODE_BLOCKS (start_globals\<lparr>CODE_BLOCKS := [''a'', ''b'']\<rparr>))) < 3"
    by simp
  from out_of_range_refused [OF 1 2, of "[]" "''exploit.py''"] 1
  show ?thesis by (simp add: demo_env_def)
qed

text \<open>
  The claim as stated fails for \<open>:diff\<close> on a file that is not there: the report is about
  the file, whatever the block number.
\<close>

theorem diff_reports_missing_file_first:
  "handle_command demo_env (start_globals\<lparr>CODE_BLOCKS := [''a'', ''b'']\<rparr>)
      [''diff'', ''missing.py'', ''0'']
    = Some (Printed (FileNotFound ''missing.py''), start_globals\<lparr>CODE_BLOCKS := [''a'', ''b'']\<rparr>)"
  by (simp add: handle_command_def cmd_diff_def diff_block_def demo_env_def)

text \<open>
  Claim C10.  Without a block number and with at least one block, \<open>:copy\<close> and \<open>:diff\<close>
  work on the last block, under the number that is the length of \<open>CODE_BLOCKS\<close>.
\<close>

theorem default_block_is_last:
  assumes "CODE_BLOCKS g \<noteq> []"
  shows "handle_command e g [''copy'']
           = Some (if platform e = ''darwin''
                   then (if pbcopy e (last (CODE_BLOCKS g))
                         then Printed (Copied (int (length (CODE_BLOCKS g))) (last (CODE_BLOCKS g)))
                         else CommandError CalledProcessError)
                   else Printed MacOnly, g)
       \<and> handle_command e g [''diff'', f]
           = Some (if \<not> path_exists e f then Printed (FileNotFound f)
                   else (case read_text e f of
                           None \<Rightarrow> Printed DiffError
                         | Some old \<Rightarrow>
                             Printed (DiffShown f old (last (CODE_BLOCKS g))
                                        (int (length (CODE_BLOCKS g))))), g)"
proof -
  from assms
  have "CODE_BLOCKS g ! nat (int (length (CODE_BLOCKS g)) - 1) = last (CODE_BLOCKS g)"
    by (simp add: last_conv_nth nat_diff_distrib')
  with assms show ?thesis
    by (simp add: handle_command_def cmd_copy_def cmd_diff_def diff_block_def Let_def
        split: option.splits)
qed

theorem default_block_is_last_witness:
  "CODE_BLOCKS (start_globals\<lparr>CODE_BLOCKS := [''a'', ''b'']\<rparr>) \<noteq> []
   \<and> handle_command demo_env (start_globals\<lparr>CODE_BLOCKS := [''a'', ''b'']\<rparr>) [''copy'']
       = Some (Printed (Copied 2 ''b''), start_globals\<lparr>CODE_BLOCKS := [''a'', ''b'']\<rparr>)
   \<and> handle_command demo_env (start_globals\<lparr>CODE_BLOCKS := [''a'', ''b'']\<rparr>)
         [''diff'', ''exploit.py'']
       = Some (Printed (DiffShown ''exploit.py'' ''x = 2\<newline>'' ''b'' 2),
               start_globals\<lparr>CODE_BLOCKS := [''a'', ''b'']\<rparr>)"
proof -
  have 1: "CODE_BLOCKS (start_globals\<lparr>CODE_BLOCKS := [''a'', ''b'']\<rparr>) \<noteq> []"
    by simp
  from default_block_is_last [OF 1, of demo_env "''exploit.py''"]
  show ?thesis by (simp add: demo_env_def)
qed

section \<open>Cutting a response into deltas\<close>

text \<open>
  A cut between two deltas is clean when it does not part two backticks: one of the two
  sides is empty, or the left one does not end with a backtick, or the right one does not
  start with one.  A sequence of deltas has safe cuts when each delta is cleanly cut from
  the text that follows it.
\<close>

definition clean_cut :: "string \<Rightarrow> string \<Rightarrow> bool" where
  "clean_cut a b = (a = [] \<or> b = [] \<or> last a \<noteq> BT \<or> hd b \<noteq> BT)"

fun safe_cuts :: "string list \<Rightarrow> bool" where
  "safe_cuts [] = True"
| "safe_cuts (d # ds) = (clean_cut d (concat ds) \<and> safe_cuts ds)"

text \<open>
  The parts of two texts put together: the last part of the first continues with the first
  part of the second.
\<close>

definition glue :: "string list \<Rightarrow> string list \<Rightarrow> string list" where
  "glue xs ys = butlast xs @ [last xs @ hd ys] @ tl ys"

lemma split_once_char_append:
  "split_once [q] a = Some (l, r) \<Longrightarrow> split_once [q] (a @ b) = Some (l, r @ b)"
  by (induction a arbitrary: l) (auto split: if_splits option.splits)

lemma take_lines_in_code [simp]: "in_code_block (take_lines s) = in_code_block s"
  by (induction s rule: take_lines.induct) (subst take_lines.simps, simp split: option.splits)

lemma take_lines_blocks [simp]: "code_blocks (take_lines s) = code_blocks s"
  by (induction s rule: take_lines.induct) (subst take_lines.simps, simp split: option.splits)

lemma take_lines_full [simp]: "full_content (take_lines s) = full_content s"
  by (induction s rule: take_lines.induct) (subst take_lines.simps, simp split: option.splits)

lemma take_lines_None:
  "split_once [NL] (buffer s) = None \<Longrightarrow> take_lines s = s"
  by (subst take_lines.simps) simp

lemma take_lines_Some:
  "split_once [NL] (buffer s) = Some (l, r) \<Longrightarrow>
   take_lines s
     = take_lines (s\<lparr>buffer := r, current_block_content := current_block_content s @ [l @ [NL]]\<rparr>)"
  by (subst take_lines.simps) simp

lemma take_lines_full_update:
  "take_lines (s\<lparr>full_content := f\<rparr>) = (take_lines s)\<lparr>full_content := f\<rparr>"
proof (induction s rule: take_lines.induct)
  case (1 s)
  show ?case
  proof (cases "split_once [NL] (buffer s)")
    case None
    then show ?thesis by (simp add: take_lines_None)
  next
    case (Some p)
    obtain l r where p: "p = (l, r)" by (cases p)
    let ?s1 = "s\<lparr>buffer := r, current_block_content := current_block_content s @ [l @ [NL]]\<rparr>"
    from Some p have sp: "split_once [NL] (buffer s) = Some (l, r)" by simp
    have r1: "?s1\<lparr>full_content := f\<rparr>
        = (s\<lparr>full_content := f\<rparr>)\<lparr>buffer := r,
            current_block_content := current_block_content (s\<lparr>full_content := f\<rparr>) @ [l @ [NL]]\<rparr>"
      by simp
    have "take_lines (s\<lparr>full_content := f\<rparr>) = take_lines (?s1\<lparr>full_content := f\<rparr>)"
      unfolding r1 by (rule take_lines_Some) (simp add: sp)
    also have "\<dots> = (take_lines ?s1)\<lparr>full_content := f\<rparr>"
      by (rule "1.IH" [OF Some p [symmetric]])
    also have "take_lines ?s1 = take_lines s"
      using sp by (rule take_lines_Some [symmetric])
    finally show ?thesis .
  qed
qed

lemma take_lines_append:
  "take_lines ((take_lines s)\<lparr>buffer := buffer (take_lines s) @ h\<rparr>)
     = take_lines (s\<lparr>buffer := buffer s @ h\<rparr>)"
proof (induction s rule: take_lines.induct)
  case (1 s)
  show ?case
  proof (cases "split_once [NL] (buffer s)")
    case None
    then show ?thesis by (simp add: take_lines_None)
  next
    case (Some p)
    obtain l r where p: "p = (l, r)" by (cases p)
    let ?s1 = "s\<lparr>buffer := r, current_block_content := current_block_content s @ [l @ [NL]]\<rparr>"
    from Some p have sp: "split_once [NL] (buffer s) = Some (l, r)" by simp
    then have sph: "split_once [NL] (buffer s @ h) = Some (l, r @ h)"
      by (rule split_once_char_append)
    have eq: "take_lines s = take_lines ?s1"
      using sp by (rule take_lines_Some)
    have r1: "?s1\<lparr>buffer := buffer ?s1 @ h\<rparr>
        = (s\<lparr>buffer := buffer s @ h\<rparr>)\<lparr>buffer := r @ h,
            current_block_content :=
              current_block_content (s\<lparr>buffer := buffer s @ h\<rparr>) @ [l @ [NL]]\<rparr>"
      by simp
    have "take_lines (s\<lparr>buffer := buffer s @ h\<rparr>) = take_lines (?s1\<lparr>buffer := buffer ?s1 @ h\<rparr>)"
      unfolding r1 by (rule take_lines_Some) (simp add: sph)
    also have "\<dots> = take_lines ((take_lines ?s1)\<lparr>buffer := buffer (take_lines ?s1) @ h\<rparr>)"
      by (rule "1.IH" [OF Some p [symmetric], symmetric])
    finally show ?thesis
      unfolding eq by simp
  qed
qed

lemma feed_part_append: "feed_part (feed_part s l) h = feed_part s (l @ h)"
proof (cases "in_code_block s \<and> l \<noteq> [] \<and> h \<noteq> []")
  case True
  with take_lines_append [of "s\<lparr>buffer := buffer s @ l\<rparr>" h] show ?thesis
    by (simp add: feed_part_def)
next
  case False
  then show ?thesis by (auto simp: feed_part_def)
qed

lemma py_split_not_Nil [simp]: "py_split sep s \<noteq> []"
  by (induction sep s rule: py_split.induct) (auto split: list.splits)

lemma glue_single [simp]: "glue [p] ys = (p @ hd ys) # tl ys"
  by (simp add: glue_def)

lemma glue_Cons [simp]: "ps \<noteq> [] \<Longrightarrow> glue (p # ps) ys = p # glue ps ys"
  by (simp add: glue_def)

lemma clean_cut_Nil [simp]: "clean_cut [] b"
  by (simp add: clean_cut_def)

lemma clean_cut_tl: "clean_cut (c # cs) b \<Longrightarrow> clean_cut cs b"
  by (auto simp: clean_cut_def)

lemma clean_cut_drop: "clean_cut a b \<Longrightarrow> clean_cut (drop n a) b"
  by (auto simp: clean_cut_def)

lemma fence_prefix_append:
  assumes "clean_cut a b" and "a \<noteq> []"
  shows "prefix FENCE (a @ b) = prefix FENCE a"
proof (cases a)
  case Nil
  with assms show ?thesis by simp
next
  case a1: (Cons x xs)
  show ?thesis
  proof (cases xs)
    case Nil
    with a1 assms show ?thesis
      by (cases b) (auto simp: FENCE_def clean_cut_def)
  next
    case a2: (Cons y ys)
    show ?thesis
    proof (cases ys)
      case Nil
      with a1 a2 assms show ?thesis
        by (cases b) (auto simp: FENCE_def clean_cut_def)
    next
      case (Cons z zs)
      with a1 a2 show ?thesis
        by (simp add: FENCE_def)
    qed
  qed
qed

lemma py_split_fence_hit:
  assumes "prefix FENCE s"
  shows "py_split FENCE s = [] # py_split FENCE (drop 3 s)"
proof (cases s)
  case Nil
  with assms show ?thesis by (simp add: FENCE_def)
next
  case (Cons c cs)
  have "FENCE \<noteq> []" "length FENCE = 3"
    by (simp_all add: FENCE_def)
  with assms Cons show ?thesis
    by (simp del: drop_Suc_Cons)
qed

lemma py_split_fence_miss:
  assumes "\<not> prefix FENCE (c # cs)" and "py_split FENCE cs = p # ps"
  shows "py_split FENCE (c # cs) = (c # p) # ps"
  using assms by simp

lemma py_split_append:
  "clean_cut a b \<Longrightarrow>
   py_split FENCE (a @ b) = glue (py_split FENCE a) (py_split FENCE b)"
proof (induction a rule: length_induct)
  case (1 a)
  show ?case
  proof (cases a)
    case Nil
    then show ?thesis
      by (cases "py_split FENCE b") simp_all
  next
    case (Cons c cs)
    with "1.prems" have pre: "prefix FENCE (a @ b) = prefix FENCE a"
      using fence_prefix_append [of a b] by simp
    show ?thesis
    proof (cases "prefix FENCE a")
      case True
      then have len: "3 \<le> length a"
        by (auto simp: FENCE_def dest: prefix_length_le)
      from "1.prems" have "clean_cut (drop 3 a) b"
        by (rule clean_cut_drop)
      moreover from len Cons have "length (drop 3 a) < length a"
        by simp
      ultimately have
        "py_split FENCE (drop 3 a @ b) = glue (py_split FENCE (drop 3 a)) (py_split FENCE b)"
        using "1.IH" by blast
      moreover from len have "drop 3 (a @ b) = drop 3 a @ b"
        by simp
      moreover from True pre have "py_split FENCE (a @ b) = [] # py_split FENCE (drop 3 (a @ b))"
        by (simp add: py_split_fence_hit)
      moreover from True have "py_split FENCE a = [] # py_split FENCE (drop 3 a)"
        by (rule py_split_fence_hit)
      ultimately show ?thesis
        by simp
    next
      case False
      from "1.prems" Cons have "clean_cut cs b"
        by (auto dest: clean_cut_tl)
      with "1.IH" Cons have ih:
        "py_split FENCE (cs @ b) = glue (py_split FENCE cs) (py_split FENCE b)"
        by simp
      obtain p ps where pp: "py_split FENCE cs = p # ps"
        by (cases "py_split FENCE cs") simp_all
      from False Cons pp have l: "py_split FENCE a = (c # p) # ps"
        by (simp add: py_split_fence_miss)
      from False pre Cons have n: "\<not> prefix FENCE (c # (cs @ b))"
        by simp
      show ?thesis
      proof (cases ps)
        case Nil
        with ih pp have "py_split FENCE (cs @ b) = (p @ hd (py_split FENCE b)) # tl (py_split FENCE b)"
          by simp
        with n have "py_split FENCE (c # (cs @ b))
            = (c # p @ hd (py_split FENCE b)) # tl (py_split FENCE b)"
          by (rule py_split_fence_miss)
        with l Nil Cons show ?thesis by simp
      next
        case (Cons q qs)
        with ih pp have "py_split FENCE (cs @ b) = p # glue ps (py_split FENCE b)"
          by simp
        with n have "py_split FENCE (c # (cs @ b)) = (c # p) # glue ps (py_split FENCE b)"
          by (rule py_split_fence_miss)
        with l Cons \<open>a = c # cs\<close> show ?thesis by simp
      qed
    qed
  qed
qed

text \<open>
  The parts of a text between its markers alternate between text outside and inside a
  block; \<open>closed_blocks\<close> are the parts that stand between an opening marker and its
  closing marker.  \<open>py_join\<close> is \<open>sep.join(parts)\<close>.
\<close>

fun closed_blocks :: "string list \<Rightarrow> string list" where
  "closed_blocks (t # b # t' # rest) = b # closed_blocks (t' # rest)"
| "closed_blocks _ = []"

fun py_join :: "string \<Rightarrow> string list \<Rightarrow> string" where
  "py_join sep [] = []"
| "py_join sep [x] = x"
| "py_join sep (x # y # zs) = x @ sep @ py_join sep (y # zs)"

lemma feed_parts_Suc: "feed_parts (Suc i) s ps = feed_parts (Suc 0) s ps"
proof (induction ps arbitrary: i s)
  case Nil
  show ?case by simp
next
  case (Cons p ps)
  have "feed_parts (Suc (Suc i)) x ps = feed_parts (Suc 0) x ps" for x
    by (rule Cons.IH)
  moreover have "feed_parts (Suc (Suc 0)) x ps = feed_parts (Suc 0) x ps" for x
    by (rule Cons.IH)
  ultimately show ?case
    by (simp del: One_nat_def)
qed

lemma feed_parts_glue:
  "xs \<noteq> [] \<Longrightarrow> ys \<noteq> [] \<Longrightarrow>
   feed_parts 0 (feed_parts i s xs) ys = feed_parts i s (glue xs ys)"
proof (induction xs arbitrary: i s)
  case Nil
  then show ?case by simp
next
  case (Cons p ps)
  show ?case
  proof (cases ps)
    case Nil
    from Cons.prems obtain h t where ys: "ys = h # t"
      by (cases ys) simp_all
    show ?thesis
      unfolding Nil ys
      by (simp add: feed_part_append feed_parts_Suc [of i])
  next
    case (Cons q qs)
    with Cons.IH [of "Suc i"] Cons.prems show ?thesis
      by simp
  qed
qed

lemma toggle_full_update:
  "toggle_marker (s\<lparr>full_content := f\<rparr>) = (toggle_marker s)\<lparr>full_content := f\<rparr>"
  by (simp add: toggle_marker_def Let_def)

lemma feed_part_full_update:
  "feed_part (s\<lparr>full_content := f\<rparr>) p = (feed_part s p)\<lparr>full_content := f\<rparr>"
proof -
  have "(s\<lparr>full_content := f\<rparr>)\<lparr>buffer := buffer (s\<lparr>full_content := f\<rparr>) @ p\<rparr>
      = (s\<lparr>buffer := buffer s @ p\<rparr>)\<lparr>full_content := f\<rparr>"
    by simp
  then have "take_lines ((s\<lparr>full_content := f\<rparr>)\<lparr>buffer := buffer (s\<lparr>full_content := f\<rparr>) @ p\<rparr>)
      = (take_lines (s\<lparr>buffer := buffer s @ p\<rparr>))\<lparr>full_content := f\<rparr>"
    by (simp only: take_lines_full_update)
  then show ?thesis
    unfolding feed_part_def by simp
qed

lemma feed_parts_full_update:
  "feed_parts i (s\<lparr>full_content := f\<rparr>) ps = (feed_parts i s ps)\<lparr>full_content := f\<rparr>"
  by (induction ps arbitrary: i s) (simp_all add: toggle_full_update feed_part_full_update)

lemma toggle_full [simp]: "full_content (toggle_marker s) = full_content s"
  by (simp add: toggle_marker_def Let_def)

lemma feed_part_full [simp]: "full_content (feed_part s p) = full_content s"
  by (simp add: feed_part_def)

lemma feed_parts_full [simp]: "full_content (feed_parts i s ps) = full_content s"
  by (induction ps arbitrary: i s) simp_all

lemma feed_delta_alt:
  "feed_delta s d =
     (if d = [] then s
      else (feed_parts 0 s (py_split FENCE d))\<lparr>full_content := full_content s @ d\<rparr>)"
  by (simp add: feed_delta_def feed_parts_full_update)

lemma feed_delta_full [simp]: "full_content (feed_delta s d) = full_content s @ d"
  by (simp add: feed_delta_alt)

lemma feed_delta_append:
  assumes "clean_cut a b"
  shows "feed_delta (feed_delta s a) b = feed_delta s (a @ b)"
proof (cases "a = [] \<or> b = []")
  case True
  then show ?thesis by (auto simp: feed_delta_alt)
next
  case False
  then have "feed_delta (feed_delta s a) b
      = (feed_parts 0 (feed_parts 0 s (py_split FENCE a)) (py_split FENCE b))
          \<lparr>full_content := full_content s @ a @ b\<rparr>"
    by (simp add: feed_delta_alt feed_parts_full_update)
  also have "\<dots> = (feed_parts 0 s (py_split FENCE (a @ b)))\<lparr>full_content := full_content s @ a @ b\<rparr>"
    using assms by (simp add: py_split_append feed_parts_glue)
  also have "\<dots> = feed_delta s (a @ b)"
    using False by (simp add: feed_delta_alt)
  finally show ?thesis .
qed

lemma foldl_feed_delta:
  "safe_cuts ds \<Longrightarrow> foldl feed_delta s ds = feed_delta s (concat ds)"
proof (induction ds arbitrary: s)
  case Nil
  then show ?case by (simp add: feed_delta_def)
next
  case (Cons d ds)
  then show ?case by (simp add: feed_delta_append)
qed

lemma foldl_feed_delta_full: "full_content (foldl feed_delta s ds) = full_content s @ concat ds"
  by (induction ds arbitrary: s) simp_all

lemma flush_end_full [simp]: "full_content (flush_end s) = full_content s"
  by (simp add: flush_end_def)

lemma raw_run_full: "full_content (raw_run ds) = concat ds"
  by (simp add: raw_run_def foldl_feed_delta_full raw_init_def)

lemma raw_run_safe: "safe_cuts ds \<Longrightarrow> raw_run ds = raw_run [concat ds]"
  by (simp add: raw_run_def foldl_feed_delta)

lemma foldl_rich_feed: "foldl rich_feed acc ds = acc @ concat ds"
  by (induction ds arbitrary: acc) (simp_all add: rich_feed_def)

lemma rich_run_concat: "rich_run ds = (concat ds, findall_blocks (concat ds))"
  by (simp add: rich_run_def foldl_rich_feed Let_def)

section \<open>Two ways of cutting the same text\<close>

text \<open>
  What the two modes do agree on.  For two ways of cutting the same text into deltas, the
  rich mode ends with the same text and the same blocks, and the raw mode with the same
  text.  The raw mode ends in the same state only as far as this lemma goes: when both
  sequences have safe cuts.
\<close>

lemma same_text_same_result:
  assumes "concat ds = concat ds'"
  shows "rich_run ds = rich_run ds'
       \<and> full_content (raw_run ds) = full_content (raw_run ds')
       \<and> (safe_cuts ds \<and> safe_cuts ds' \<longrightarrow> raw_run ds = raw_run ds')"
  using assms by (simp add: rich_run_concat raw_run_full raw_run_safe)

text \<open>
  The text of the open block, and the state between two blocks, for the invariant of
  the loop over the parts.
\<close>

definition pending :: "raw_state \<Rightarrow> string" where
  "pending s = concat (current_block_content s) @ buffer s"

definition idle :: "raw_state \<Rightarrow> bool" where
  "idle s = (\<not> in_code_block s \<and> buffer s = [] \<and> current_block_content s = [])"

lemma take_lines_pending [simp]: "pending (take_lines s) = pending s"
proof (induction s rule: take_lines.induct)
  case (1 s)
  show ?case
  proof (cases "split_once [NL] (buffer s)")
    case None
    then show ?thesis by (simp add: take_lines_None)
  next
    case (Some p)
    obtain l r where p: "p = (l, r)" by (cases p)
    from Some p have sp: "split_once [NL] (buffer s) = Some (l, r)" by simp
    then have "buffer s = l @ [NL] @ r"
      by (rule split_once_Some)
    with "1.IH" [OF Some p [symmetric]] take_lines_Some [OF sp] show ?thesis
      by (simp add: pending_def)
  qed
qed

lemma feed_part_in_code [simp]: "in_code_block (feed_part s p) = in_code_block s"
  by (simp add: feed_part_def)

lemma feed_part_blocks [simp]: "code_blocks (feed_part s p) = code_blocks s"
  by (simp add: feed_part_def)

lemma feed_part_pending:
  "in_code_block s \<Longrightarrow> pending (feed_part s p) = pending s @ p"
  by (simp add: feed_part_def) (simp add: pending_def)

lemma feed_part_outside: "\<not> in_code_block s \<Longrightarrow> feed_part s p = s"
  by (simp add: feed_part_def)

lemma toggle_open:
  "\<not> in_code_block s \<Longrightarrow> toggle_marker s = s\<lparr>in_code_block := True\<rparr>"
  by (simp add: toggle_marker_def)

lemma toggle_close:
  "in_code_block s \<Longrightarrow>
   idle (toggle_marker s) \<and> code_blocks (toggle_marker s) = code_blocks s @ [pending s]
   \<and> full_content (toggle_marker s) = full_content s"
  by (simp add: toggle_marker_def Let_def idle_def pending_def)

lemma feed_parts_0: "idle s \<Longrightarrow> feed_parts 0 s (t # rest) = feed_parts (Suc 0) s rest"
  by (simp add: idle_def feed_part_outside)

lemma feed_parts_blocks:
  "idle s \<Longrightarrow>
   code_blocks (feed_parts 0 s (t # rest)) = code_blocks s @ closed_blocks (t # rest)
   \<and> in_code_block (feed_parts 0 s (t # rest)) = even (length (t # rest))
   \<and> (if even (length (t # rest))
       then pending (feed_parts 0 s (t # rest)) = last (t # rest)
       else idle (feed_parts 0 s (t # rest)))"
proof (induction "length rest" arbitrary: s t rest rule: less_induct)
  case less
  show ?case
  proof (cases rest)
    case Nil
    with less.prems show ?thesis
      by (simp add: idle_def feed_part_outside)
  next
    case r1: (Cons b rest1)
    show ?thesis
    proof (cases rest1)
      case Nil
      with r1 less.prems show ?thesis
        by (simp add: idle_def feed_part_outside toggle_open feed_part_pending)
          (simp add: pending_def)
    next
      case r2: (Cons t' rest2)
      let ?s1 = "feed_part (toggle_marker s) b"
      let ?s2 = "toggle_marker ?s1"
      from less.prems have open1: "in_code_block ?s1" "code_blocks ?s1 = code_blocks s"
        "pending ?s1 = b"
        by (simp_all add: idle_def toggle_open feed_part_pending) (simp add: pending_def)
      then have s2: "idle ?s2" "code_blocks ?s2 = code_blocks s @ [b]"
        using toggle_close [of ?s1] by simp_all
      from less.prems
      have "feed_parts 0 s (t # b # t' # rest2) = feed_parts (Suc 0) s (b # t' # rest2)"
        by (rule feed_parts_0)
      also have "\<dots> = feed_parts (Suc (Suc 0)) ?s1 (t' # rest2)"
        by simp
      also have "\<dots> = feed_parts (Suc (Suc (Suc 0))) (feed_part ?s2 t') rest2"
        by simp
      also have "feed_part ?s2 t' = ?s2"
        using s2(1) by (simp add: idle_def feed_part_outside)
      also have "feed_parts (Suc (Suc (Suc 0))) ?s2 rest2 = feed_parts (Suc 0) ?s2 rest2"
        by (rule feed_parts_Suc)
      also have "\<dots> = feed_parts 0 ?s2 (t' # rest2)"
        using s2(1) by (rule feed_parts_0 [symmetric])
      finally have eq: "feed_parts 0 s (t # b # t' # rest2) = feed_parts 0 ?s2 (t' # rest2)" .
      have "length rest2 < length rest"
        using r1 r2 by simp
      from less.hyps [OF this s2(1), of t'] s2(2) show ?thesis
        unfolding r1 r2 eq by (simp del: feed_parts.simps)
    qed
  qed
qed

lemma length_closed_blocks: "length (closed_blocks ps) = (length ps - 1) div 2"
  by (induction ps rule: closed_blocks.induct) simp_all

lemma py_join_split: "py_join sep (py_split sep s) = s"
proof (induction sep s rule: py_split.induct)
  case (1 sep)
  show ?case by simp
next
  case (2 sep c cs)
  show ?case
  proof (cases "sep \<noteq> [] \<and> prefix sep (c # cs)")
    case True
    then obtain r where r: "c # cs = sep @ r"
      by (auto simp: prefix_def)
    obtain p ps where pp: "py_split sep (drop (length sep) (c # cs)) = p # ps"
      by (cases "py_split sep (drop (length sep) (c # cs))") simp_all
    from True have "py_split sep (c # cs) = [] # py_split sep (drop (length sep) (c # cs))"
      by simp
    with 2(1) [OF True] pp r show ?thesis
      by simp
  next
    case False
    obtain p ps where pp: "py_split sep cs = p # ps"
      by (cases "py_split sep cs") simp_all
    with False have "py_split sep (c # cs) = (c # p) # ps"
      by auto
    with 2(2) [OF False] pp show ?thesis
      by (cases ps) simp_all
  qed
qed

section \<open>Blocks of a response with balanced fences\<close>

text \<open>
  The blocks of the raw mode on deltas with safe cuts whose text has an even number of
  markers (an odd number of parts): the parts between an opening and its closing marker,
  in order.
\<close>

lemma safe_cuts_blocks:
  assumes "safe_cuts ds" and "odd (length (py_split FENCE (concat ds)))"
  shows "code_blocks (raw_run ds) = closed_blocks (py_split FENCE (concat ds))
       \<and> 2 * length (code_blocks (raw_run ds)) + 1 = length (py_split FENCE (concat ds))
       \<and> py_join FENCE (py_split FENCE (concat ds)) = concat ds"
proof -
  define whole where "whole = concat ds"
  let ?parts = "py_split FENCE whole"
  obtain t rest where parts: "?parts = t # rest"
    by (cases ?parts) simp_all
  have idle0: "idle raw_init"
    by (simp add: idle_def raw_init_def)
  let ?s = "feed_parts 0 raw_init ?parts"
  from feed_parts_blocks [OF idle0, of t rest] assms(2) parts
  have fp: "code_blocks ?s = closed_blocks ?parts" "\<not> in_code_block ?s"
    by (simp_all add: raw_init_def whole_def)
  have "code_blocks (feed_delta raw_init whole) = closed_blocks ?parts
      \<and> \<not> in_code_block (feed_delta raw_init whole)"
  proof (cases "whole = []")
    case True
    then show ?thesis by (simp add: feed_delta_def raw_init_def)
  next
    case False
    with fp show ?thesis by (simp add: feed_delta_alt)
  qed
  then have "code_blocks (raw_run [whole]) = closed_blocks ?parts"
    by (simp add: raw_run_def flush_end_def)
  with assms(1) have 1: "code_blocks (raw_run ds) = closed_blocks ?parts"
    by (simp add: raw_run_safe whole_def)
  from assms(2) have "2 * ((length ?parts - 1) div 2) + 1 = length ?parts"
    by (auto elim: oddE simp: whole_def)
  with 1 show ?thesis
    unfolding whole_def [symmetric] by (simp add: length_closed_blocks py_join_split)
qed

lemma same_text_same_result_example:
  "concat [''Hello '', ''```print(1)'', ''``` done''] = concat [''Hello ```print(1)``` done'']
   \<and> safe_cuts [''Hello '', ''```print(1)'', ''``` done'']
   \<and> safe_cuts [''Hello ```print(1)``` done'']
   \<and> raw_run [''Hello '', ''```print(1)'', ''``` done''] = raw_run [''Hello ```print(1)``` done'']
   \<and> rich_run [''Hello '', ''```print(1)'', ''``` done''] = rich_run [''Hello ```print(1)``` done'']"
proof -
  have 1: "concat [''Hello '', ''```print(1)'', ''``` done''] = concat [''Hello ```print(1)``` done'']"
    by simp
  have 2: "safe_cuts [''Hello '', ''```print(1)'', ''``` done'']"
    "safe_cuts [''Hello ```print(1)``` done'']"
    by (simp_all add: clean_cut_def)
  from same_text_same_result [OF 1] 1 2 show ?thesis
    by blast
qed

lemma safe_cuts_blocks_example:
  "safe_cuts [''Hello '', ''```print(1)'', ''``` done'']
   \<and> odd (length (py_split FENCE (concat [''Hello '', ''```print(1)'', ''``` done''])))
   \<and> code_blocks (raw_run [''Hello '', ''```print(1)'', ''``` done'']) = [''print(1)'']"
proof -
  have 1: "safe_cuts [''Hello '', ''```print(1)'', ''``` done'']"
    by (simp add: clean_cut_def)
  have 2: "py_split FENCE (concat [''Hello '', ''```print(1)'', ''``` done''])
      = [''Hello '', ''print(1)'', '' done'']"
    by code_simp
  then have 3: "odd (length (py_split FENCE (concat [''Hello '', ''```print(1)'', ''``` done''])))"
    by simp
  from safe_cuts_blocks [OF 1 3] 1 3 show ?thesis
    unfolding 2 by simp
qed

section \<open>A fence marker cut by a delta boundary\<close>

text \<open>
  Claim C1.  The final text and the final \<open>CODE_BLOCKS\<close> should be the same for every
  way of cutting a response into deltas, also when a marker is cut across two deltas.
  The rich mode does this; the raw mode splits each delta on its own and keeps no part
  of a marker for the next delta, so a cut marker is never seen.  A fenced block whose
  opening marker arrives as \<open>``\<close> and \<open>`\<close> is captured by the rich mode either way,
  and by the raw mode only when the marker is whole; the text \<open>a```b```c\<close> cut as
  \<open>a``\<close>, \<open>`b```c\<close> gives the raw mode the block \<open>c\<close> instead of \<open>b\<close>; and the
  example of the specification, \<open>Hello ```print(1)``` done\<close>, gives it no block at all
  when it arrives character by character.
\<close>

theorem cut_fence_changes_blocks:
  "concat [''``'', ''`py\<newline>x = 1\<newline>```''] = concat [''```py\<newline>x = 1\<newline>```'']
   \<and> rich_run [''``'', ''`py\<newline>x = 1\<newline>```''] = (''```py\<newline>x = 1\<newline>```'', [''x = 1\<newline>''])
   \<and> rich_run [''```py\<newline>x = 1\<newline>```''] = (''```py\<newline>x = 1\<newline>```'', [''x = 1\<newline>''])
   \<and> code_blocks (raw_run [''``'', ''`py\<newline>x = 1\<newline>```'']) = []
   \<and> code_blocks (raw_run [''```py\<newline>x = 1\<newline>```'']) = [''py\<newline>x = 1\<newline>'']
   \<and> concat [''a``'', ''`b```c''] = concat [''a```b```c'']
   \<and> code_blocks (raw_run [''a``'', ''`b```c'']) = [''c'']
   \<and> code_blocks (raw_run [''a```b```c'']) = [''b'']
   \<and> code_blocks (raw_run (map (\<lambda>c. [c]) ''Hello ```print(1)``` done'')) = []
   \<and> code_blocks (raw_run [''Hello ```print(1)``` done'']) = [''print(1)'']
   \<and> full_content (raw_run (map (\<lambda>c. [c]) ''Hello ```print(1)``` done''))
       = ''Hello ```print(1)``` done''"
  by code_simp

text \<open>
  Claim C6.  For deltas whose text has balanced markers, \<open>CODE_BLOCKS\<close> should hold one
  entry for each pair of markers, each the text between its two markers.  The raw mode
  does so for the text \<open>```a```b\<close> in one delta, where the one pair stands around \<open>a\<close>;
  with the closing marker cut as \<open>``\<close> and \<open>`\<close> it never closes the block and the final
  flush commits \<open>a```b\<close>.  For the text \<open>x```y```z\<close> with both markers cut it captures
  nothing, where the text has one pair.
\<close>

theorem cut_fence_spoils_block:
  "py_split FENCE (concat [''```a``'', ''`b'']) = [[], ''a'', ''b'']
   \<and> code_blocks (raw_run [''```a```b'']) = [''a'']
   \<and> code_blocks (raw_run [''```a``'', ''`b'']) = [''a```b'']
   \<and> py_split FENCE (concat [''x``'', ''`y``'', ''`z'']) = [''x'', ''y'', ''z'']
   \<and> code_blocks (raw_run [''x```y```z'']) = [''y'']
   \<and> code_blocks (raw_run [''x``'', ''`y``'', ''`z'']) = []"
  by code_simp

section \<open>What the highlighter adds\<close>

text \<open>
  The colour codes the highlighter writes, and the relation between a text without the
  escape character and the same text with colour codes put in between its characters.
\<close>

definition color_codes :: "string list" where
  "color_codes = [RESET, GRAY, YELLOW, BLUE, CYAN]"

inductive woven :: "string \<Rightarrow> string \<Rightarrow> bool" where
  woven_Nil: "woven [] []"
| woven_char: "woven xs ys \<Longrightarrow> c \<noteq> ESC \<Longrightarrow> woven (c # xs) (c # ys)"
| woven_code: "woven xs ys \<Longrightarrow> k \<in> set color_codes \<Longrightarrow> woven xs (k @ ys)"

lemma code_shape:
  "k \<in> set color_codes \<Longrightarrow> \<exists>r. k = ESC # r \<and> set r \<subseteq> set ''[0123456789m''"
  by (auto simp: color_codes_def RESET_def GRAY_def YELLOW_def BLUE_def CYAN_def)

lemma strip_ansi_code:
  "k \<in> set color_codes \<Longrightarrow> strip_ansi (k @ ys) = strip_ansi ys"
  by (auto simp: color_codes_def RESET_def GRAY_def YELLOW_def BLUE_def CYAN_def is_param_def)

lemma woven_strip: "woven xs ys \<Longrightarrow> strip_ansi ys = xs"
  by (induction rule: woven.induct) (simp_all add: strip_ansi_code)

lemma woven_append: "woven xs ys \<Longrightarrow> woven xs' ys' \<Longrightarrow> woven (xs @ xs') (ys @ ys')"
proof (induction rule: woven.induct)
  case woven_Nil
  then show ?case by simp
next
  case (woven_char xs ys c)
  then show ?case by (simp add: woven.woven_char)
next
  case (woven_code xs ys k)
  then have "woven (xs @ xs') (ys @ ys')"
    by simp
  from woven.woven_code [OF this woven_code.hyps(2)] show ?case
    by simp
qed

lemma woven_refl: "ESC \<notin> set xs \<Longrightarrow> woven xs xs"
  by (induction xs) (auto intro: woven.intros)

lemma woven_code_only: "k \<in> set color_codes \<Longrightarrow> woven [] k"
  using woven_code [OF woven_Nil] by simp

lemma woven_take:
  "woven xs (p @ r) \<Longrightarrow> ESC \<notin> set p \<Longrightarrow> \<exists>xr. xs = p @ xr \<and> woven xr r"
proof (induction p arbitrary: xs)
  case Nil
  then show ?case by simp
next
  case (Cons a p)
  from Cons.prems(1) have "woven xs (a # (p @ r))" by simp
  then consider
    (char) xs' where "xs = a # xs'" "woven xs' (p @ r)" "a \<noteq> ESC"
  | (code) k ys where "woven xs ys" "k \<in> set color_codes" "a # (p @ r) = k @ ys"
    by (subst (asm) woven.simps) auto
  then show ?case
  proof cases
    case char
    with Cons.IH [of xs'] Cons.prems(2) show ?thesis by auto
  next
    case code
    from code_shape [OF code(2)] code(3) Cons.prems(2) show ?thesis
      by auto
  qed
qed

lemma woven_cut:
  assumes "woven xs ys" and "ys = a @ q # b" and "q \<notin> set (ESC # ''[0123456789m'')"
  shows "\<exists>xa xb. xs = xa @ q # xb \<and> woven xa a \<and> woven xb b"
  using assms
proof (induction arbitrary: a rule: woven.induct)
  case woven_Nil
  then show ?case by simp
next
  case (woven_char xs ys c)
  show ?case
  proof (cases a)
    case Nil
    with woven_char.prems woven_char.hyps have "c = q" "ys = b" by simp_all
    with Nil woven_char.hyps show ?thesis
      by (intro exI [of _ "[]"] exI [of _ xs]) (simp add: woven_Nil)
  next
    case (Cons a0 a')
    with woven_char.prems have "ys = a' @ q # b" "a0 = c" by simp_all
    with woven_char.IH [of a'] woven_char.prems obtain xa xb
      where "xs = xa @ q # xb" "woven xa a'" "woven xb b" by blast
    with Cons \<open>a0 = c\<close> woven_char.hyps show ?thesis
      by (intro exI [of _ "c # xa"] exI [of _ xb]) (simp add: woven.woven_char)
  qed
next
  case (woven_code xs ys k)
  from code_shape [OF woven_code.hyps(2)] woven_code.prems(2) have qk: "q \<notin> set k"
    by auto
  from woven_code.prems(1) obtain us where
    "(k = a @ us \<and> us @ ys = q # b) \<or> (k @ us = a \<and> ys = us @ q # b)"
    unfolding append_eq_append_conv2 by blast
  then show ?case
  proof
    assume h: "k = a @ us \<and> us @ ys = q # b"
    with qk have "us = []"
      by (cases us) auto
    with h have "ys = [] @ q # b" "a = k" by simp_all
    with woven_code.IH [of "[]"] woven_code.prems obtain xa xb
      where x: "xs = xa @ q # xb" "woven xa []" "woven xb b" by blast
    from woven.woven_code [OF x(2) woven_code.hyps(2)] \<open>a = k\<close> have "woven xa a" by simp
    with x show ?thesis by blast
  next
    assume h: "k @ us = a \<and> ys = us @ q # b"
    with woven_code.IH [of us] woven_code.prems obtain xa xb
      where x: "xs = xa @ q # xb" "woven xa us" "woven xb b" by blast
    from woven.woven_code [OF x(2) woven_code.hyps(2)] h have "woven xa a" by simp
    with x show ?thesis by blast
  qed
qed

lemma woven_cases:
  assumes "woven xs t"
  obtains (nil) "xs = []" "t = []"
  | (char) c xs' ys where "xs = c # xs'" "t = c # ys" "woven xs' ys" "c \<noteq> ESC"
  | (code) k ys where "t = k @ ys" "woven xs ys" "k \<in> set color_codes" "length ys < length t"
proof -
  from assms show ?thesis
  proof (cases rule: woven.cases)
    case woven_Nil
    then show ?thesis by (rule nil)
  next
    case woven_char
    then show ?thesis by (auto intro: char)
  next
    case (woven_code ys k)
    from code_shape [OF woven_code(3)] have "k \<noteq> []" by auto
    with woven_code show ?thesis by (auto intro: code)
  qed
qed

lemma sub_quote_skip: "q \<notin> set p \<Longrightarrow> sub_quote q (p @ t) = p @ sub_quote q t"
  by (induction p) auto

lemma woven_sub_quote:
  assumes q: "q \<notin> set (ESC # ''[0123456789m'')"
  shows "woven xs t \<Longrightarrow> woven xs (sub_quote q t)"
proof (induction "length t" arbitrary: xs t rule: less_induct)
  case less
  from less.prems show ?case
  proof (cases rule: woven_cases)
    case nil
    then show ?thesis by (simp add: woven_Nil)
  next
    case (char c xs' ys)
    have plain: "woven xs (c # sub_quote q ys)"
      using char less.hyps [of ys xs'] by (simp add: woven_char)
    show ?thesis
    proof (cases "if c = q then split_once [q] ys else None")
      case None
      with char plain show ?thesis by simp
    next
      case (Some m)
      obtain body rest where m: "m = (body, rest)" by (cases m)
      show ?thesis
      proof (cases "NL \<in> set body")
        case True
        with Some m char plain show ?thesis by simp
      next
        case False
        from Some m have cq: "c = q" and sp: "split_once [q] ys = Some (body, rest)"
          by (simp_all split: if_splits)
        from sp have ys: "ys = body @ q # rest"
          by (auto dest: split_once_Some)
        from woven_cut [OF char(3) ys q] obtain xa xb
          where x: "xs' = xa @ q # xb" "woven xa body" "woven xb rest" by blast
        from ys char have "length rest < length t" by simp
        from less.hyps [OF this x(3)] have "woven xb (RESET @ sub_quote q rest)"
          by (intro woven_code) (simp_all add: color_codes_def)
        moreover from q have "q \<noteq> ESC" by simp
        with x(2) have "woven (q # xa @ [q]) (q # body @ [q])"
          by (intro woven_char woven_append) (simp_all add: woven_Nil)
        then have "woven (q # xa @ [q]) (YELLOW @ (q # body @ [q]))"
          by (intro woven_code) (simp_all add: color_codes_def)
        ultimately have "woven ((q # xa @ [q]) @ xb)
            ((YELLOW @ (q # body @ [q])) @ RESET @ sub_quote q rest)"
          by (rule woven_append [rotated])
        with Some m False char cq x(1) show ?thesis by simp
      qed
    qed
  next
    case (code k ys)
    from code_shape [OF code(3)] q have "q \<notin> set k" by auto
    then have "sub_quote q (k @ ys) = k @ sub_quote q ys"
      by (rule sub_quote_skip)
    with code less.hyps [of ys xs] show ?thesis
      by (simp add: woven_code)
  qed
qed

lemma keyword_letters:
  "k \<in> set KEYWORDS \<Longrightarrow> k \<noteq> [] \<and> hd k \<in> set ''dcifrewtpabTFNalgn'' \<and> ESC \<notin> set k"
  by (auto simp: KEYWORDS_def)

lemma kw_match_None:
  assumes "c \<notin> set ''dcifrewtpabTFNalgn''"
  shows "kw_match U (c # t) = None"
proof (cases "kw_match U (c # t)")
  case None
  then show ?thesis .
next
  case (Some k)
  from kw_match_Some [OF Some] keyword_letters [of k] have "hd k = c" "hd k \<in> set ''dcifrewtpabTFNalgn''"
    by (cases k; simp)+
  with assms show ?thesis by simp
qed

lemma word_facts [simp]:
  "\<not> is_word U ESC" "\<not> is_word U (CHR ''['')" "is_word U (CHR ''m'')"
  "is_digit c \<Longrightarrow> is_word U c" "\<not> is_digit ESC" "\<not> is_digit (CHR ''['')"
  "\<not> is_digit (CHR ''m'')"
  by (auto simp: is_word_def is_digit_def)

lemma digit_facts [simp]:
  "is_digit (CHR ''0'')" "is_digit (CHR ''3'')" "is_digit (CHR ''4'')" "is_digit (CHR ''6'')"
  "is_digit (CHR ''9'')"
  by (simp_all add: is_digit_def)

lemma kw_match_code_chars [simp]:
  "kw_match U (ESC # t) = None" "kw_match U (CHR ''['' # t) = None"
  "is_digit c \<Longrightarrow> kw_match U (c # t) = None"
  by (rule kw_match_None; auto simp: is_digit_def)+

lemma sub_kw_code:
  "k \<in> set color_codes \<Longrightarrow> sub_kw U w (k @ t) = k @ sub_kw U True t"
  by (auto simp: color_codes_def RESET_def GRAY_def YELLOW_def BLUE_def CYAN_def)

lemma sub_num_code:
  "k \<in> set color_codes \<Longrightarrow> sub_num U w (k @ t) = k @ sub_num U True t"
  by (auto simp: color_codes_def RESET_def GRAY_def YELLOW_def BLUE_def CYAN_def)

lemma woven_wrap:
  assumes "woven xs (p @ r)" and "ESC \<notin> set p" and "k \<in> set color_codes"
    and step: "\<And>xr. woven xr r \<Longrightarrow> woven xr r'"
  shows "woven xs (k @ p @ RESET @ r')"
proof -
  from woven_take [OF assms(1,2)] obtain xr where x: "xs = p @ xr" "woven xr r"
    by blast
  from step [OF x(2)] have "woven xr (RESET @ r')"
    by (intro woven_code) (simp_all add: color_codes_def)
  with woven_refl [OF assms(2)] have "woven (p @ xr) (p @ RESET @ r')"
    by (rule woven_append)
  with x(1) assms(3) show ?thesis
    by (simp add: woven_code)
qed

lemma woven_sub_kw: "woven xs t \<Longrightarrow> woven xs (sub_kw U w t)"
proof (induction "length t" arbitrary: xs t w rule: less_induct)
  case less
  from less.prems show ?case
  proof (cases rule: woven_cases)
    case nil
    then show ?thesis by (simp add: woven_Nil)
  next
    case (char c xs' ys)
    show ?thesis
    proof (cases "if w then None else kw_match U (c # ys)")
      case None
      then have "sub_kw U w (c # ys) = c # sub_kw U (is_word U c) ys"
        by (simp only: sub_kw.simps option.case)
      with char less.hyps [of ys xs'] show ?thesis
        by (simp add: woven_char del: sub_kw.simps)
    next
      case (Some k)
      let ?r = "drop (length k) (c # ys)"
      from Some have eq: "sub_kw U w (c # ys) = BLUE @ k @ RESET @ sub_kw U True ?r"
        by (simp only: sub_kw.simps option.case)
      from Some have km: "kw_match U (c # ys) = Some k"
        by (simp split: if_splits)
      from kw_match_Some [OF km] keyword_letters [of k]
      have k: "k \<noteq> []" "prefix k (c # ys)" "ESC \<notin> set k"
        by simp_all
      then have t: "c # ys = k @ ?r"
        by (auto simp: prefix_def)
      with k(1) have "length ?r < length t"
        using char(2) by (cases k) simp_all
      then have step: "woven xr ?r \<Longrightarrow> woven xr (sub_kw U True ?r)" for xr
        by (rule less.hyps)
      from less.prems char(2) t have w: "woven xs (k @ ?r)"
        by simp
      have "BLUE \<in> set color_codes"
        by (simp add: color_codes_def)
      from woven_wrap [OF w k(3) this step] eq char(2) show ?thesis
        by simp
    qed
  next
    case (code k ys)
    with less.hyps [of ys xs True] show ?thesis
      by (simp add: sub_kw_code woven_code)
  qed
qed

lemma woven_sub_num: "woven xs t \<Longrightarrow> woven xs (sub_num U w t)"
proof (induction "length t" arbitrary: xs t w rule: less_induct)
  case less
  from less.prems show ?case
  proof (cases rule: woven_cases)
    case nil
    then show ?thesis by (simp add: woven_Nil)
  next
    case (char c xs' ys)
    show ?thesis
    proof (cases "\<not> w \<and> is_digit c
        \<and> (case dropWhile is_digit ys of [] \<Rightarrow> True | d # _ \<Rightarrow> \<not> is_word U d)")
      case False
      then have "sub_num U w (c # ys) = c # sub_num U (is_word U c) ys"
        by (simp only: sub_num.simps if_False)
      with char less.hyps [of ys xs'] show ?thesis
        by (simp add: woven_char del: sub_num.simps)
    next
      case True
      let ?run = "c # takeWhile is_digit ys" and ?rest = "dropWhile is_digit ys"
      from True have eq: "sub_num U w (c # ys) = CYAN @ ?run @ RESET @ sub_num U True ?rest"
        by (subst sub_num.simps) (simp del: sub_num.simps)
      have "length ?rest < length t"
        using char(2) by (simp add: less_Suc_eq_le length_dropWhile_le)
      then have step: "woven xr ?rest \<Longrightarrow> woven xr (sub_num U True ?rest)" for xr
        by (rule less.hyps)
      from less.prems char(2) have w: "woven xs (?run @ ?rest)"
        by simp
      from True have e: "ESC \<notin> set ?run"
        by (auto dest: set_takeWhileD)
      have "CYAN \<in> set color_codes"
        by (simp add: color_codes_def)
      from woven_wrap [OF w e this step] eq char(2) show ?thesis
        by simp
    qed
  next
    case (code k ys)
    with less.hyps [of ys xs True] show ?thesis
      by (simp add: sub_num_code woven_code)
  qed
qed

lemma woven_highlight_text:
  "woven xs t \<Longrightarrow> woven xs (highlight_code_text U t)"
  unfolding highlight_code_text_def
  by (intro woven_sub_num woven_sub_kw woven_sub_quote) simp_all

text \<open>
  Claim C5, as the code has it.  For a line without the escape character, the highlighted
  line is the line with colour codes put in between its characters, and taking every
  colour-escape sequence out of it gives the line back.
\<close>

theorem highlight_round_trip:
  assumes "ESC \<notin> set line"
  shows "woven line (highlight_code_line U line)
       \<and> strip_ansi (highlight_code_line U line) = line"
proof -
  have "woven line (highlight_code_line U line)"
  proof (cases "split_once ''#'' line")
    case None
    with assms show ?thesis
      by (simp add: highlight_code_line_def woven_highlight_text woven_refl)
  next
    case (Some m)
    obtain code comment where m: "m = (code, comment)" by (cases m)
    with Some have line: "line = code @ ''#'' @ comment"
      by (auto dest: split_once_Some)
    with assms have "woven code (highlight_code_text U code)"
      by (intro woven_highlight_text woven_refl) simp
    moreover have "woven (''#'' @ comment) (GRAY @ (''#'' @ comment) @ RESET)"
    proof -
      from assms line have "woven (''#'' @ comment) (''#'' @ comment)"
        by (intro woven_refl) simp
      moreover have "woven [] RESET"
        by (rule woven_code_only) (simp add: color_codes_def)
      ultimately have "woven ((''#'' @ comment) @ []) ((''#'' @ comment) @ RESET)"
        by (rule woven_append)
      then have "woven (''#'' @ comment) ((''#'' @ comment) @ RESET)"
        by simp
      moreover have "GRAY \<in> set color_codes"
        by (simp add: color_codes_def)
      ultimately show ?thesis
        by (rule woven_code)
    qed
    ultimately have "woven (code @ ''#'' @ comment)
        (highlight_code_text U code @ GRAY @ (''#'' @ comment) @ RESET)"
      by (rule woven_append)
    with Some m line show ?thesis
      by (simp add: highlight_code_line_def)
  qed
  then show ?thesis
    by (simp add: woven_strip)
qed

theorem highlight_round_trip_witness:
  "ESC \<notin> set ''x = 1 # set value''
   \<and> strip_ansi (highlight_code_line (\<lambda>c. False) ''x = 1 # set value'') = ''x = 1 # set value''
   \<and> highlight_code_line (\<lambda>c. False) ''x = 1 # set value''
       = ''x = '' @ CYAN @ ''1'' @ RESET @ '' '' @ GRAY @ ''# set value'' @ RESET"
proof -
  have 1: "ESC \<notin> set ''x = 1 # set value''"
    by simp
  have "highlight_code_line (\<lambda>c. False) ''x = 1 # set value''
       = ''x = '' @ CYAN @ ''1'' @ RESET @ '' '' @ GRAY @ ''# set value'' @ RESET"
    by code_simp
  with highlight_round_trip [OF 1, of "\<lambda>c. False"] 1 show ?thesis
    by simp
qed

text \<open>
  The claim as stated fails for a line that holds an escape sequence of its own, which
  the highlighter passes on and the yardstick takes out with the others.
\<close>

theorem highlight_loses_own_escapes:
  "strip_ansi (highlight_code_line (\<lambda>c. False) (ESC # ''[0m'')) \<noteq> ESC # ''[0m''"
  by code_simp

end
